theory Spec2Isabelle
  imports Main "HOL-Library.Word" "HOL-Library.Monad_Syntax"
begin

section \<open>TagLib::List: an implicitly shared list (tlist.h)\<close>

text \<open>
  The class \<^verbatim>\<open>List<T>\<close> has one member, \<^verbatim>\<open>std::shared_ptr<ListPrivate<T>> d\<close>.
  The model keeps an explicit store:
  \<^item> \<open>heap\<close> maps an address to what \<^verbatim>\<open>std::make_shared\<close> allocated there: the
    control block's \<open>use_count\<close> and the \<^verbatim>\<open>ListPrivate\<close> object;
  \<^item> \<open>d\<close> maps every live \<^verbatim>\<open>List\<close> object (named by a handle of type \<open>'h\<close>) to the
    address its member \<^verbatim>\<open>d\<close> points to;
  \<^item> \<open>nxt\<close> is the next address \<^verbatim>\<open>make_shared\<close> hands out (addresses are not reused);
  \<^item> \<open>deleted\<close> logs, in order, the elements on which \<^verbatim>\<open>delete\<close> was called (only the
    partial specialisation \<^verbatim>\<open>ListPrivate<TP *>\<close> ever does so).

  Every operation returns an option: \<open>None\<close> stands for undefined behaviour of the C++
  (a dead object, a dangling pointer, an iterator that does not belong to the list, an index
  out of range, \<^verbatim>\<open>front()\<close> of an empty list).
\<close>

type_synonym addr = nat

record 'a ListPrivate =
  autoDelete :: bool
  lst :: "'a list"

record 'a block =
  use_count :: nat
  obj :: "'a ListPrivate"

record ('h, 'a) state =
  d :: "'h \<Rightarrow> addr option"
  heap :: "addr \<Rightarrow> 'a block option"
  nxt :: addr
  deleted :: "'a list"

text \<open>A \<^verbatim>\<open>std::list\<close> iterator: the store whose list it points into and the position there
  (the position equal to the length is \<^verbatim>\<open>end()\<close>). References returned by \<^verbatim>\<open>front()\<close>,
  \<^verbatim>\<open>back()\<close> and \<^verbatim>\<open>operator[]\<close> are modelled the same way.\<close>

record iter =
  it_store :: addr
  it_pos :: nat

definition init :: "('h, 'a) state" where
  "init = \<lparr>d = (\<lambda>_. None), heap = (\<lambda>_. None), nxt = 0, deleted = []\<rparr>"

subsection \<open>The shared pointer\<close>

text \<open>\<^verbatim>\<open>std::make_shared<ListPrivate<T>>(...)\<close>: a new block with one owner.\<close>

definition make_shared :: "'a ListPrivate \<Rightarrow> ('h, 'a) state \<Rightarrow> addr \<times> ('h, 'a) state" where
  "make_shared v s =
     (nxt s, s\<lparr>heap := (heap s)(nxt s \<mapsto> \<lparr>use_count = 1, obj = v\<rparr>), nxt := Suc (nxt s)\<rparr>)"

text \<open>Copying a \<^verbatim>\<open>shared_ptr\<close> increments the count of its block.\<close>

definition acquire :: "addr \<Rightarrow> ('h, 'a) state \<Rightarrow> ('h, 'a) state option" where
  "acquire p s =
     (case heap s p of
        None \<Rightarrow> None
      | Some b \<Rightarrow> Some (s\<lparr>heap := (heap s)(p \<mapsto> b\<lparr>use_count := Suc (use_count b)\<rparr>)\<rparr>))"

text \<open>\<^verbatim>\<open>ListPrivate::clear()\<close>. The argument \<open>ptr\<close> says which class template is
  instantiated: \<open>True\<close> for the partial specialisation \<^verbatim>\<open>ListPrivate<TP *>\<close>, which deletes
  every member when \<open>autoDelete\<close> is set, \<open>False\<close> for the generic one. The result is the
  cleared object and the elements deleted.\<close>

definition ListPrivate_clear :: "bool \<Rightarrow> 'a ListPrivate \<Rightarrow> 'a ListPrivate \<times> 'a list" where
  "ListPrivate_clear ptr v =
     (v\<lparr>lst := []\<rparr>, if ptr \<and> autoDelete v then lst v else [])"

text \<open>Destroying a \<^verbatim>\<open>shared_ptr\<close>: the count drops; the last owner destroys the object
  (\<^verbatim>\<open>~ListPrivate()\<close> of the specialisation calls \<^verbatim>\<open>clear()\<close>) and frees the block.\<close>

definition release :: "bool \<Rightarrow> addr \<Rightarrow> ('h, 'a) state \<Rightarrow> ('h, 'a) state option" where
  "release ptr p s =
     (case heap s p of
        None \<Rightarrow> None
      | Some b \<Rightarrow>
          if 1 < use_count b
          then Some (s\<lparr>heap := (heap s)(p \<mapsto> b\<lparr>use_count := use_count b - 1\<rparr>)\<rparr>)
          else Some (s\<lparr>heap := (heap s)(p := None),
                       deleted := deleted s @ snd (ListPrivate_clear ptr (obj b))\<rparr>))"

text \<open>\<^verbatim>\<open>*d\<close>: the private object of a list, and \<^verbatim>\<open>d->list\<close>.\<close>

definition priv :: "('h, 'a) state \<Rightarrow> 'h \<Rightarrow> 'a ListPrivate option" where
  "priv s h = do { p \<leftarrow> d s h; b \<leftarrow> heap s p; Some (obj b) }"

definition elems :: "('h, 'a) state \<Rightarrow> 'h \<Rightarrow> 'a list option" where
  "elems s h = map_option lst (priv s h)"

text \<open>\<^verbatim>\<open>d.use_count()\<close>.\<close>

definition d_use_count :: "'h \<Rightarrow> ('h, 'a) state \<Rightarrow> nat option" where
  "d_use_count h s = do { p \<leftarrow> d s h; b \<leftarrow> heap s p; Some (use_count b) }"

text \<open>An update of \<^verbatim>\<open>d->list\<close> in place.\<close>

definition upd_list :: "'h \<Rightarrow> ('a list \<Rightarrow> 'a list) \<Rightarrow> ('h, 'a) state \<Rightarrow> ('h, 'a) state option" where
  "upd_list h f s =
     do { p \<leftarrow> d s h; b \<leftarrow> heap s p;
          Some (s\<lparr>heap := (heap s)(p \<mapsto> b\<lparr>obj := (obj b)\<lparr>lst := f (lst (obj b))\<rparr>\<rparr>)\<rparr>) }"

subsection \<open>Constructors, destructor, copy assignment\<close>

text \<open>\<^verbatim>\<open>List()\<close>, \<^verbatim>\<open>List(std::initializer_list<T>)\<close>: the constructors of \<^verbatim>\<open>ListPrivate\<close>
  leave \<open>autoDelete\<close> value-initialised, that is \<open>False\<close>.\<close>

definition List_ctor :: "'h \<Rightarrow> ('h, 'a) state \<Rightarrow> ('h, 'a) state option" where
  "List_ctor h s =
     (if d s h \<noteq> None then None
      else let (p, s1) = make_shared \<lparr>autoDelete = False, lst = []\<rparr> s
           in Some (s1\<lparr>d := (d s1)(h \<mapsto> p)\<rparr>))"

definition List_ctor_init :: "'h \<Rightarrow> 'a list \<Rightarrow> ('h, 'a) state \<Rightarrow> ('h, 'a) state option" where
  "List_ctor_init h ini s =
     (if d s h \<noteq> None then None
      else let (p, s1) = make_shared \<lparr>autoDelete = False, lst = ini\<rparr> s
           in Some (s1\<lparr>d := (d s1)(h \<mapsto> p)\<rparr>))"

text \<open>\<^verbatim>\<open>List(const List<T> &l) = default\<close>: copies the pointer.\<close>

definition List_copy :: "'h \<Rightarrow> 'h \<Rightarrow> ('h, 'a) state \<Rightarrow> ('h, 'a) state option" where
  "List_copy h l s =
     (if d s h \<noteq> None then None
      else do { p \<leftarrow> d s l; s1 \<leftarrow> acquire p s; Some (s1\<lparr>d := (d s1)(h \<mapsto> p)\<rparr>) })"

text \<open>\<^verbatim>\<open>~List() = default\<close>.\<close>

definition List_dtor :: "bool \<Rightarrow> 'h \<Rightarrow> ('h, 'a) state \<Rightarrow> ('h, 'a) state option" where
  "List_dtor ptr h s =
     do { p \<leftarrow> d s h; s1 \<leftarrow> release ptr p s; Some (s1\<lparr>d := (d s1)(h := None)\<rparr>) }"

text \<open>\<^verbatim>\<open>operator=(const List<T> &) = default\<close>: the new block is acquired, then the old
  one released.\<close>

definition List_assign :: "bool \<Rightarrow> 'h \<Rightarrow> 'h \<Rightarrow> ('h, 'a) state \<Rightarrow> ('h, 'a) state option" where
  "List_assign ptr h l s =
     do { q \<leftarrow> d s l; p \<leftarrow> d s h; s1 \<leftarrow> acquire q s; s2 \<leftarrow> release ptr p s1;
          Some (s2\<lparr>d := (d s2)(h \<mapsto> q)\<rparr>) }"

subsection \<open>detach\<close>

text \<open>
  \<^verbatim>\<open>if(d.use_count() > 1) d = std::make_shared<ListPrivate<T>>(d->list);\<close>
  The constructor \<^verbatim>\<open>ListPrivate(const std::list<TP> &l) : list(l) {}\<close> copies the list only;
  \<open>autoDelete\<close> of the new object is value-initialised. The move assignment releases the
  old block, whose count is greater than one here, so it is only decremented; the new
  block lives at an address of its own.
\<close>

definition List_detach :: "'h \<Rightarrow> ('h, 'a) state \<Rightarrow> ('h, 'a) state option" where
  "List_detach h s =
     do { p \<leftarrow> d s h; b \<leftarrow> heap s p;
          if 1 < use_count b
          then let (q, s1) = make_shared \<lparr>autoDelete = False, lst = lst (obj b)\<rparr>
                               (s\<lparr>heap := (heap s)(p \<mapsto> b\<lparr>use_count := use_count b - 1\<rparr>)\<rparr>)
               in Some (s1\<lparr>d := (d s1)(h \<mapsto> q)\<rparr>)
          else Some s }"

subsection \<open>Iterators\<close>

definition List_begin :: "'h \<Rightarrow> ('h, 'a) state \<Rightarrow> (iter \<times> ('h, 'a) state) option" where
  "List_begin h s =
     do { s1 \<leftarrow> List_detach h s; p \<leftarrow> d s1 h; Some (\<lparr>it_store = p, it_pos = 0\<rparr>, s1) }"

definition List_cbegin :: "'h \<Rightarrow> ('h, 'a) state \<Rightarrow> iter option" where
  "List_cbegin h s = do { p \<leftarrow> d s h; _ \<leftarrow> heap s p; Some \<lparr>it_store = p, it_pos = 0\<rparr> }"

definition List_end :: "'h \<Rightarrow> ('h, 'a) state \<Rightarrow> (iter \<times> ('h, 'a) state) option" where
  "List_end h s =
     do { s1 \<leftarrow> List_detach h s; p \<leftarrow> d s1 h; b \<leftarrow> heap s1 p;
          Some (\<lparr>it_store = p, it_pos = length (lst (obj b))\<rparr>, s1) }"

definition List_cend :: "'h \<Rightarrow> ('h, 'a) state \<Rightarrow> iter option" where
  "List_cend h s =
     do { p \<leftarrow> d s h; b \<leftarrow> heap s p; Some \<lparr>it_store = p, it_pos = length (lst (obj b))\<rparr> }"

text \<open>\<^verbatim>\<open>*it\<close> and \<^verbatim>\<open>++it\<close>; dereferencing \<^verbatim>\<open>end()\<close> or an iterator into a freed store is
  undefined.\<close>

definition deref :: "iter \<Rightarrow> ('h, 'a) state \<Rightarrow> 'a option" where
  "deref it s =
     do { b \<leftarrow> heap s (it_store it);
          if it_pos it < length (lst (obj b)) then Some (lst (obj b) ! it_pos it) else None }"

definition incr :: "iter \<Rightarrow> iter" where
  "incr it = it\<lparr>it_pos := Suc (it_pos it)\<rparr>"

text \<open>\<^verbatim>\<open>d->list.insert(it, item)\<close>, without detaching. The iterator has to point into the list
  \<^verbatim>\<open>d->list\<close>; the result points to the inserted element.\<close>

definition List_insert :: "'h \<Rightarrow> iter \<Rightarrow> 'a \<Rightarrow> ('h, 'a) state \<Rightarrow> (iter \<times> ('h, 'a) state) option" where
  "List_insert h it item s =
     do { p \<leftarrow> d s h; b \<leftarrow> heap s p;
          if it_store it = p \<and> it_pos it \<le> length (lst (obj b))
          then do { s1 \<leftarrow> upd_list h (\<lambda>xs. take (it_pos it) xs @ item # drop (it_pos it) xs) s;
                    Some (it, s1) }
          else None }"

text \<open>\<^verbatim>\<open>d->list.erase(it)\<close>, without detaching. The iterator has to point to an element of
  \<^verbatim>\<open>d->list\<close>; the result points to the element that followed it, or is \<^verbatim>\<open>end()\<close>.\<close>

definition List_erase :: "'h \<Rightarrow> iter \<Rightarrow> ('h, 'a) state \<Rightarrow> (iter \<times> ('h, 'a) state) option" where
  "List_erase h it s =
     do { p \<leftarrow> d s h; b \<leftarrow> heap s p;
          if it_store it = p \<and> it_pos it < length (lst (obj b))
          then do { s1 \<leftarrow> upd_list h (\<lambda>xs. take (it_pos it) xs @ drop (Suc (it_pos it)) xs) s;
                    Some (it, s1) }
          else None }"

subsection \<open>size\<close>

text \<open>\<^verbatim>\<open>static_cast<unsigned int>(d->list.size())\<close>: \<^verbatim>\<open>size_t\<close> has 64 bits,
  \<^verbatim>\<open>unsigned int\<close> 32.\<close>

definition List_size :: "'h \<Rightarrow> ('h, 'a) state \<Rightarrow> 32 word option" where
  "List_size h s =
     do { xs \<leftarrow> elems s h; Some (ucast (word_of_nat (length xs) :: 64 word)) }"

definition List_isEmpty :: "'h \<Rightarrow> ('h, 'a) state \<Rightarrow> bool option" where
  "List_isEmpty h s = do { xs \<leftarrow> elems s h; Some (xs = []) }"

subsection \<open>Mutating members that detach\<close>

text \<open>The loop of \<^verbatim>\<open>sortedInsert\<close>:
  \<^verbatim>\<open>while(it != end() && *it < value) ++it;\<close>
  where \<^verbatim>\<open>end()\<close> is the non-const overload, which detaches at every call.\<close>

function sortedInsert_loop ::
  "'h \<Rightarrow> 'a::ord \<Rightarrow> iter \<Rightarrow> ('h, 'a) state \<Rightarrow> (iter \<times> ('h, 'a) state) option" where
  "sortedInsert_loop h v it s =
     (case List_end h s of
        None \<Rightarrow> None
      | Some (e, s') \<Rightarrow>
          if it \<noteq> e
          then (case deref it s' of
                  None \<Rightarrow> None
                | Some x \<Rightarrow> if x < v then sortedInsert_loop h v (incr it) s' else Some (it, s'))
          else Some (it, s'))"
  by pat_completeness auto
termination
proof (relation "measure (\<lambda>(h, v, it, s).
          case List_end h s of
            None \<Rightarrow> 0
          | Some (e, s') \<Rightarrow>
              (case heap s' (it_store it) of
                 None \<Rightarrow> 0
               | Some b \<Rightarrow> length (lst (obj b)) - it_pos it))", goal_cases)
  case 1
  show ?case by simp
next
  case (2 h v it s x2 e s' x)
  from 2 have e: "List_end h s = Some (e, s')" by simp
  then have "List_detach h s = Some s'"
    by (auto simp: List_end_def bind_eq_Some_conv)
  then obtain p b where pb: "d s h = Some p" "heap s p = Some b"
      and s': "if 1 < use_count b
               then s' = s\<lparr>heap := (heap s)(p \<mapsto> b\<lparr>use_count := use_count b - 1\<rparr>,
                                          nxt s \<mapsto> \<lparr>use_count = 1,
                                                     obj = \<lparr>autoDelete = False, lst = lst (obj b)\<rparr>\<rparr>),
                           nxt := Suc (nxt s), d := (d s)(h \<mapsto> nxt s)\<rparr>
               else s' = s"
    by (auto simp: List_detach_def make_shared_def bind_eq_Some_conv split: if_splits)
  have "List_detach h s' = Some s'"
  proof (cases "1 < use_count b")
    case True
    with s' show ?thesis by (simp add: List_detach_def)
  next
    case False
    with s' pb show ?thesis by (simp add: List_detach_def)
  qed
  with e have e': "List_end h s' = Some (e, s')"
    by (auto simp: List_end_def bind_eq_Some_conv)
  from 2 obtain b where b: "heap s' (it_store it) = Some b" "it_pos it < length (lst (obj b))"
    by (auto simp: deref_def bind_eq_Some_conv split: if_splits)
  show ?case using e e' b by (simp add: incr_def)
qed

text \<open>
  \<^verbatim>\<open>detach(); Iterator it = begin(); while(...) ++it;\<close>
  \<^verbatim>\<open>if(unique && it != end() && *it == value) return *this;\<close>
  \<^verbatim>\<open>insert(it, value); return *this;\<close>
\<close>

definition List_sortedInsert :: "'h \<Rightarrow> 'a::ord \<Rightarrow> bool \<Rightarrow> ('h, 'a) state \<Rightarrow> ('h, 'a) state option" where
  "List_sortedInsert h v unique s =
     do { s1 \<leftarrow> List_detach h s;
          (it0, s2) \<leftarrow> List_begin h s1;
          (it, s3) \<leftarrow> sortedInsert_loop h v it0 s2;
          if unique
          then do { (e, s4) \<leftarrow> List_end h s3;
                    if it \<noteq> e
                    then do { x \<leftarrow> deref it s4;
                              if x = v then Some s4
                              else map_option snd (List_insert h it v s4) }
                    else map_option snd (List_insert h it v s4) }
          else map_option snd (List_insert h it v s3) }"

text \<open>\<^verbatim>\<open>append(const T &)\<close>: \<^verbatim>\<open>detach(); d->list.push_back(item);\<close>\<close>

definition List_append :: "'h \<Rightarrow> 'a \<Rightarrow> ('h, 'a) state \<Rightarrow> ('h, 'a) state option" where
  "List_append h item s = do { s1 \<leftarrow> List_detach h s; upd_list h (\<lambda>xs. xs @ [item]) s1 }"

text \<open>\<^verbatim>\<open>append(const List<T> &l)\<close>:
  \<^verbatim>\<open>detach(); d->list.insert(d->list.end(), l.begin(), l.end());\<close>\<close>

definition List_append_list :: "'h \<Rightarrow> 'h \<Rightarrow> ('h, 'a) state \<Rightarrow> ('h, 'a) state option" where
  "List_append_list h l s =
     do { s1 \<leftarrow> List_detach h s; ys \<leftarrow> elems s1 l; upd_list h (\<lambda>xs. xs @ ys) s1 }"

definition List_prepend :: "'h \<Rightarrow> 'a \<Rightarrow> ('h, 'a) state \<Rightarrow> ('h, 'a) state option" where
  "List_prepend h item s = do { s1 \<leftarrow> List_detach h s; upd_list h (\<lambda>xs. item # xs) s1 }"

definition List_prepend_list :: "'h \<Rightarrow> 'h \<Rightarrow> ('h, 'a) state \<Rightarrow> ('h, 'a) state option" where
  "List_prepend_list h l s =
     do { s1 \<leftarrow> List_detach h s; ys \<leftarrow> elems s1 l; upd_list h (\<lambda>xs. ys @ xs) s1 }"

text \<open>\<^verbatim>\<open>clear()\<close>: \<^verbatim>\<open>detach(); d->clear();\<close>\<close>

definition List_clear :: "bool \<Rightarrow> 'h \<Rightarrow> ('h, 'a) state \<Rightarrow> ('h, 'a) state option" where
  "List_clear ptr h s =
     do { s1 \<leftarrow> List_detach h s; p \<leftarrow> d s1 h; b \<leftarrow> heap s1 p;
          let (v, del) = ListPrivate_clear ptr (obj b)
          in Some (s1\<lparr>heap := (heap s1)(p \<mapsto> b\<lparr>obj := v\<rparr>), deleted := deleted s1 @ del\<rparr>) }"

text \<open>\<^verbatim>\<open>find(const T &)\<close>, non-const: \<^verbatim>\<open>detach(); return std::find(begin, end, value);\<close>
  and the const members \<^verbatim>\<open>cfind\<close> and \<^verbatim>\<open>contains\<close>.\<close>

definition find_pos :: "'a \<Rightarrow> 'a list \<Rightarrow> nat" where
  "find_pos v xs = length (takeWhile (\<lambda>y. y \<noteq> v) xs)"

definition List_find :: "'h \<Rightarrow> 'a \<Rightarrow> ('h, 'a) state \<Rightarrow> (iter \<times> ('h, 'a) state) option" where
  "List_find h v s =
     do { s1 \<leftarrow> List_detach h s; p \<leftarrow> d s1 h; b \<leftarrow> heap s1 p;
          Some (\<lparr>it_store = p, it_pos = find_pos v (lst (obj b))\<rparr>, s1) }"

definition List_cfind :: "'h \<Rightarrow> 'a \<Rightarrow> ('h, 'a) state \<Rightarrow> iter option" where
  "List_cfind h v s =
     do { p \<leftarrow> d s h; b \<leftarrow> heap s p; Some \<lparr>it_store = p, it_pos = find_pos v (lst (obj b))\<rparr> }"

definition List_contains :: "'h \<Rightarrow> 'a \<Rightarrow> ('h, 'a) state \<Rightarrow> bool option" where
  "List_contains h v s = do { xs \<leftarrow> elems s h; Some (find_pos v xs \<noteq> length xs) }"

text \<open>\<^verbatim>\<open>front()\<close> and \<^verbatim>\<open>back()\<close>, non-const: \<^verbatim>\<open>detach(); return d->list.front();\<close>.
  The result is a reference to the element.\<close>

definition List_front :: "'h \<Rightarrow> ('h, 'a) state \<Rightarrow> (iter \<times> ('h, 'a) state) option" where
  "List_front h s =
     do { s1 \<leftarrow> List_detach h s; p \<leftarrow> d s1 h; b \<leftarrow> heap s1 p;
          if lst (obj b) = [] then None else Some (\<lparr>it_store = p, it_pos = 0\<rparr>, s1) }"

definition List_back :: "'h \<Rightarrow> ('h, 'a) state \<Rightarrow> (iter \<times> ('h, 'a) state) option" where
  "List_back h s =
     do { s1 \<leftarrow> List_detach h s; p \<leftarrow> d s1 h; b \<leftarrow> heap s1 p;
          if lst (obj b) = [] then None
          else Some (\<lparr>it_store = p, it_pos = length (lst (obj b)) - 1\<rparr>, s1) }"

text \<open>\<^verbatim>\<open>setAutoDelete(bool)\<close>: \<^verbatim>\<open>detach(); d->autoDelete = autoDelete;\<close>
  and \<^verbatim>\<open>autoDelete() const\<close>: \<^verbatim>\<open>return d->autoDelete;\<close>\<close>

definition List_setAutoDelete :: "'h \<Rightarrow> bool \<Rightarrow> ('h, 'a) state \<Rightarrow> ('h, 'a) state option" where
  "List_setAutoDelete h a s =
     do { s1 \<leftarrow> List_detach h s; p \<leftarrow> d s1 h; b \<leftarrow> heap s1 p;
          Some (s1\<lparr>heap := (heap s1)(p \<mapsto> b\<lparr>obj := (obj b)\<lparr>autoDelete := a\<rparr>\<rparr>)\<rparr>) }"

definition List_autoDelete :: "'h \<Rightarrow> ('h, 'a) state \<Rightarrow> bool option" where
  "List_autoDelete h s = map_option autoDelete (priv s h)"

text \<open>\<^verbatim>\<open>sort()\<close>: \<^verbatim>\<open>detach(); d->list.sort();\<close> and \<^verbatim>\<open>sort(Compare &&)\<close>.
  \<^verbatim>\<open>std::list::sort\<close> is stable; \<open>sort_comp\<close> is the stable insertion sort by the comparison.\<close>

fun insort_comp :: "('a \<Rightarrow> 'a \<Rightarrow> bool) \<Rightarrow> 'a \<Rightarrow> 'a list \<Rightarrow> 'a list" where
  "insort_comp cmp x [] = [x]"
| "insort_comp cmp x (y # ys) = (if cmp y x then y # insort_comp cmp x ys else x # y # ys)"

definition sort_comp :: "('a \<Rightarrow> 'a \<Rightarrow> bool) \<Rightarrow> 'a list \<Rightarrow> 'a list" where
  "sort_comp cmp xs = foldr (insort_comp cmp) xs []"

definition List_sort :: "'h \<Rightarrow> ('h, 'a::ord) state \<Rightarrow> ('h, 'a) state option" where
  "List_sort h s = do { s1 \<leftarrow> List_detach h s; upd_list h (sort_comp (<)) s1 }"

definition List_sort_comp ::
  "'h \<Rightarrow> ('a \<Rightarrow> 'a \<Rightarrow> bool) \<Rightarrow> ('h, 'a) state \<Rightarrow> ('h, 'a) state option" where
  "List_sort_comp h cmp s = do { s1 \<leftarrow> List_detach h s; upd_list h (sort_comp cmp) s1 }"

subsection \<open>Members that do not detach\<close>

text \<open>\<^verbatim>\<open>T &operator[](unsigned int i)\<close>:
  \<^verbatim>\<open>auto it = d->list.begin(); std::advance(it, i); return *it;\<close>
  There is no call of \<^verbatim>\<open>detach()\<close> in it. The result is a reference to the element.\<close>

definition List_index :: "'h \<Rightarrow> 32 word \<Rightarrow> ('h, 'a) state \<Rightarrow> (iter \<times> ('h, 'a) state) option" where
  "List_index h i s =
     do { p \<leftarrow> d s h; b \<leftarrow> heap s p;
          if unat i < length (lst (obj b)) then Some (\<lparr>it_store = p, it_pos = unat i\<rparr>, s)
          else None }"

text \<open>An assignment through a reference or an iterator, \<^verbatim>\<open>*it = v\<close>.\<close>

definition assign_ref :: "iter \<Rightarrow> 'a \<Rightarrow> ('h, 'a) state \<Rightarrow> ('h, 'a) state option" where
  "assign_ref r v s =
     do { b \<leftarrow> heap s (it_store r);
          if it_pos r < length (lst (obj b))
          then Some (s\<lparr>heap := (heap s)(it_store r \<mapsto>
                         b\<lparr>obj := (obj b)\<lparr>lst := (lst (obj b))[it_pos r := v]\<rparr>\<rparr>)\<rparr>)
          else None }"

text \<open>\<^verbatim>\<open>swap(List<T> &l) noexcept\<close>: \<^verbatim>\<open>swap(d, l.d)\<close>.\<close>

definition List_swap :: "'h \<Rightarrow> 'h \<Rightarrow> ('h, 'a) state \<Rightarrow> ('h, 'a) state option" where
  "List_swap h l s =
     do { p \<leftarrow> d s h; q \<leftarrow> d s l; Some (s\<lparr>d := (d s)(h \<mapsto> q, l \<mapsto> p)\<rparr>) }"

text \<open>\<^verbatim>\<open>operator==\<close>: \<^verbatim>\<open>d->list == l.d->list\<close>; \<^verbatim>\<open>operator!=\<close>: \<^verbatim>\<open>d->list != l.d->list\<close>.
  \<^verbatim>\<open>std::list\<close> compares the sizes and then the elements in order.\<close>

fun list_equal :: "'a list \<Rightarrow> 'a list \<Rightarrow> bool" where
  "list_equal [] [] = True"
| "list_equal (x # xs) (y # ys) = (x = y \<and> list_equal xs ys)"
| "list_equal _ _ = False"

definition List_eq :: "'h \<Rightarrow> 'h \<Rightarrow> ('h, 'a) state \<Rightarrow> bool option" where
  "List_eq h l s = do { xs \<leftarrow> elems s h; ys \<leftarrow> elems s l; Some (list_equal xs ys) }"

definition List_ne :: "'h \<Rightarrow> 'h \<Rightarrow> ('h, 'a) state \<Rightarrow> bool option" where
  "List_ne h l s = do { xs \<leftarrow> elems s h; ys \<leftarrow> elems s l; Some (\<not> list_equal xs ys) }"

text \<open>
  \<^verbatim>\<open>operator=(std::initializer_list<T> init)\<close>:
  \<^verbatim>\<open>bool autoDeleteEnabled = d->autoDelete;\<close>
  \<^verbatim>\<open>List(init).swap(*this);\<close>
  \<^verbatim>\<open>setAutoDelete(autoDeleteEnabled);\<close>
  The temporary \<^verbatim>\<open>List(init)\<close> owns the new block \<open>t\<close>; the swap hands \<open>t\<close> to this list and
  the old block \<open>p\<close> to the temporary, whose destructor releases it at the end of the
  statement.
\<close>

definition List_assign_init :: "bool \<Rightarrow> 'h \<Rightarrow> 'a list \<Rightarrow> ('h, 'a) state \<Rightarrow> ('h, 'a) state option" where
  "List_assign_init ptr h ini s =
     do { p \<leftarrow> d s h; b \<leftarrow> heap s p;
          let autoDeleteEnabled = autoDelete (obj b);
              (t, s1) = make_shared \<lparr>autoDelete = False, lst = ini\<rparr> s;
              s2 = s1\<lparr>d := (d s1)(h \<mapsto> t)\<rparr>
          in do { s3 \<leftarrow> release ptr p s2;
                  List_setAutoDelete h autoDeleteEnabled s3 } }"

subsection \<open>Well-formed states\<close>

text \<open>The owners of a block are the live lists whose \<^verbatim>\<open>d\<close> points to it. In a well-formed
  state finitely many lists are alive, every one of them points to an allocated block, every
  block has an owner, the count of every block is the number of its owners, and the
  allocator has not handed out the addresses from \<open>nxt\<close> on.\<close>

definition owners :: "('h, 'a) state \<Rightarrow> addr \<Rightarrow> 'h set" where
  "owners s p = {h. d s h = Some p}"

definition wf :: "('h, 'a) state \<Rightarrow> bool" where
  "wf s \<longleftrightarrow>
     finite (dom (d s)) \<and>
     (\<forall>h p. d s h = Some p \<longrightarrow> heap s p \<noteq> None) \<and>
     (\<forall>p b. heap s p = Some b \<longrightarrow>
        p < nxt s \<and> owners s p \<noteq> {} \<and> use_count b = card (owners s p))"

subsection \<open>Sole owners and positions\<close>

text \<open>The list \<open>h\<close> is alive, the count of its store is one and no other list points to it.\<close>

definition sole_owner :: "('h, 'a) state \<Rightarrow> 'h \<Rightarrow> bool" where
  "sole_owner s h \<longleftrightarrow>
     (case d s h of
        None \<Rightarrow> False
      | Some p \<Rightarrow>
          (case heap s p of None \<Rightarrow> False | Some b \<Rightarrow> use_count b = 1) \<and> owners s p = {h})"

text \<open>An iterator that points to an element of the list \<open>h\<close>, in the store \<open>h\<close> has now.\<close>

definition valid_pos :: "'h \<Rightarrow> iter \<Rightarrow> ('h, 'a) state \<Rightarrow> bool" where
  "valid_pos h it s \<longleftrightarrow>
     (case d s h of
        None \<Rightarrow> False
      | Some p \<Rightarrow>
          it_store it = p \<and>
          (case heap s p of None \<Rightarrow> False | Some b \<Rightarrow> it_pos it < length (lst (obj b))))"

subsection \<open>A client: the append loop\<close>

text \<open>\<^verbatim>\<open>for(const auto &x : xs) l.append(x);\<close>\<close>

fun append_all :: "'h \<Rightarrow> 'a list \<Rightarrow> ('h, 'a) state \<Rightarrow> ('h, 'a) state option" where
  "append_all h [] s = Some s"
| "append_all h (x # xs) s = do { s1 \<leftarrow> List_append h x s; append_all h xs s1 }"

subsection \<open>Example states\<close>

text \<open>One list, named \<open>0\<close>, holding 1, 3, 5: the state after \<^verbatim>\<open>List<int> l0 {1, 3, 5};\<close>.\<close>

definition ex1 :: "(nat, int) state" where
  "ex1 = \<lparr>d = [0 \<mapsto> 0],
          heap = [0 \<mapsto> \<lparr>use_count = 1, obj = \<lparr>autoDelete = False, lst = [1, 3, 5]\<rparr>\<rparr>],
          nxt = 1, deleted = []\<rparr>"

text \<open>Two lists with stores of their own: \<^verbatim>\<open>List<int> l0 {1, 3, 5}, l1 {2, 4};\<close>.\<close>

definition ex2 :: "(nat, int) state" where
  "ex2 = \<lparr>d = [0 \<mapsto> 0, 1 \<mapsto> 1],
          heap = [0 \<mapsto> \<lparr>use_count = 1, obj = \<lparr>autoDelete = False, lst = [1, 3, 5]\<rparr>\<rparr>,
                  1 \<mapsto> \<lparr>use_count = 1, obj = \<lparr>autoDelete = False, lst = [2, 4]\<rparr>\<rparr>],
          nxt = 2, deleted = []\<rparr>"

text \<open>Two lists sharing one store whose flag is set:
  \<^verbatim>\<open>List<int> l0 {1, 3, 5}; l0.setAutoDelete(true); List<int> l1(l0);\<close>.\<close>

definition ex3 :: "(nat, int) state" where
  "ex3 = \<lparr>d = [0 \<mapsto> 0, 1 \<mapsto> 0],
          heap = [0 \<mapsto> \<lparr>use_count = 2, obj = \<lparr>autoDelete = True, lst = [1, 3, 5]\<rparr>\<rparr>],
          nxt = 1, deleted = []\<rparr>"

text \<open>The same with a third, empty list: \<^verbatim>\<open>List<int> l2;\<close>.\<close>

definition ex4 :: "(nat, int) state" where
  "ex4 = \<lparr>d = [0 \<mapsto> 0, 1 \<mapsto> 0, 2 \<mapsto> 1],
          heap = [0 \<mapsto> \<lparr>use_count = 2, obj = \<lparr>autoDelete = True, lst = [1, 3, 5]\<rparr>\<rparr>,
                  1 \<mapsto> \<lparr>use_count = 1, obj = \<lparr>autoDelete = False, lst = []\<rparr>\<rparr>],
          nxt = 2, deleted = []\<rparr>"

section \<open>Well-formedness is an invariant\<close>

lemma owners_upd_d:
  "owners (s'\<lparr>d := (d s)(h \<mapsto> q)\<rparr>) p = (if p = q then insert h (owners s p) else owners s p - {h})"
  by (auto simp: owners_def)

lemma owners_del_d:
  "owners (s'\<lparr>d := (d s)(h := None)\<rparr>) p = owners s p - {h}"
  by (auto simp: owners_def)

lemma owners_heap_upd [simp]: "owners (s\<lparr>heap := hp\<rparr>) p = owners s p"
  by (simp add: owners_def)

lemma owners_nxt_upd [simp]: "owners (s\<lparr>nxt := n\<rparr>) p = owners s p"
  by (simp add: owners_def)

lemma owners_deleted_upd [simp]: "owners (s\<lparr>deleted := n\<rparr>) p = owners s p"
  by (simp add: owners_def)

lemma finite_owners: "finite (dom (d s)) \<Longrightarrow> finite (owners s p)"
  by (rule finite_subset[of _ "dom (d s)"]) (auto simp: owners_def)

lemma wf_finite_owners: "wf s \<Longrightarrow> finite (owners s p)"
  by (simp add: wf_def finite_owners)

lemma wf_live: "wf s \<Longrightarrow> d s h = Some p \<Longrightarrow> \<exists>b. heap s p = Some b"
  by (auto simp: wf_def)

lemma wf_fresh: "wf s \<Longrightarrow> heap s (nxt s) = None"
  by (cases "heap s (nxt s)") (auto simp: wf_def)

lemma wf_fresh_owners: "wf s \<Longrightarrow> owners s (nxt s) = {}"
  using wf_fresh[of s] by (auto simp: owners_def wf_def)

lemma wf_count: "wf s \<Longrightarrow> heap s p = Some b \<Longrightarrow> use_count b = card (owners s p)"
  by (auto simp: wf_def)

lemma wf_lt: "wf s \<Longrightarrow> heap s p = Some b \<Longrightarrow> p < nxt s"
  by (auto simp: wf_def)

lemma wf_pos: "wf s \<Longrightarrow> heap s p = Some b \<Longrightarrow> 0 < use_count b"
  using finite_owners[of s p] by (auto simp: wf_def card_gt_0_iff)

lemma wf_fin: "wf s \<Longrightarrow> finite (dom (d s))"
  by (auto simp: wf_def)

lemma wf_init: "wf init"
  by (simp add: wf_def init_def owners_def)

lemma wfI:
  assumes "finite (dom (d s))"
    and "\<And>h p. d s h = Some p \<Longrightarrow> heap s p \<noteq> None"
    and "\<And>p b. heap s p = Some b \<Longrightarrow> p < nxt s"
    and "\<And>p b. heap s p = Some b \<Longrightarrow> 0 < use_count b"
    and "\<And>p b. heap s p = Some b \<Longrightarrow> use_count b = card (owners s p)"
  shows "wf s"
  unfolding wf_def
proof (intro conjI allI impI)
  fix p b assume "heap s p = Some b"
  with assms(4,5)[of p b] show "owners s p \<noteq> {}" by auto
qed (use assms in auto)

text \<open>A new block for a list that is being constructed.\<close>

lemma wf_new:
  assumes "wf s" "d s h = None"
  shows "wf (s\<lparr>heap := (heap s)(nxt s \<mapsto> \<lparr>use_count = 1, obj = v\<rparr>), nxt := Suc (nxt s),
               d := (d s)(h \<mapsto> nxt s)\<rparr>)"
proof (rule wfI, goal_cases)
  case 1 show ?case using wf_fin[OF assms(1)] by simp
next
  case (2 h' p) then show ?case using wf_live[OF assms(1)] by (auto split: if_splits)
next
  case (3 p b) then show ?case using wf_lt[OF assms(1)] by (auto simp: less_Suc_eq split: if_splits)
next
  case (4 p b) then show ?case using wf_pos[OF assms(1)] by (auto split: if_splits)
next
  case (5 p b)
  have "h \<notin> owners s p" using assms by (simp add: owners_def)
  then show ?case using 5 assms wf_fresh_owners[OF assms(1)] wf_fresh[OF assms(1)]
    by (auto simp: owners_upd_d wf_count split: if_splits)
qed

lemma wf_List_ctor: "wf s \<Longrightarrow> List_ctor h s = Some s' \<Longrightarrow> wf s'"
  using wf_new[of s h] by (auto simp: List_ctor_def make_shared_def split: if_splits)

lemma wf_List_ctor_init: "wf s \<Longrightarrow> List_ctor_init h ini s = Some s' \<Longrightarrow> wf s'"
  using wf_new[of s h] by (auto simp: List_ctor_init_def make_shared_def split: if_splits)

text \<open>A change of the object of a block.\<close>

lemma wf_obj:
  assumes "wf s" "heap s p = Some b"
  shows "wf (s\<lparr>heap := (heap s)(p \<mapsto> b\<lparr>obj := v\<rparr>)\<rparr>)"
proof (rule wfI, goal_cases)
  case 1 show ?case using wf_fin[OF assms(1)] by simp
next
  case (2 h' p) then show ?case using wf_live[OF assms(1)] by (auto split: if_splits)
next
  case (3 p b) then show ?case using wf_lt[OF assms(1)] assms(2) by (auto split: if_splits)
next
  case (4 p b) then show ?case using wf_pos[OF assms(1)] assms(2) by (auto split: if_splits)
next
  case (5 p b) then show ?case using wf_count[OF assms(1)] assms(2) by (auto split: if_splits)
qed

lemma wf_deleted: "wf s \<Longrightarrow> wf (s\<lparr>deleted := x\<rparr>)"
  by (simp add: wf_def)

lemma wf_upd_list: "wf s \<Longrightarrow> upd_list h f s = Some s' \<Longrightarrow> wf s'"
  by (auto simp: upd_list_def bind_eq_Some_conv wf_obj)

lemma wf_copy:
  assumes "wf s" "List_copy h l s = Some s'"
  shows "wf s'"
proof -
  from assms(2) obtain p b where *: "d s h = None" "d s l = Some p" "heap s p = Some b"
    and s': "s' = s\<lparr>heap := (heap s)(p \<mapsto> b\<lparr>use_count := Suc (use_count b)\<rparr>), d := (d s)(h \<mapsto> p)\<rparr>"
    by (auto simp: List_copy_def acquire_def bind_eq_Some_conv split: if_splits option.splits)
  have fin: "finite (owners s p)" using assms(1) by (rule wf_finite_owners)
  have nin: "h \<notin> owners s r" for r using * by (simp add: owners_def)
  show ?thesis unfolding s'
  proof (rule wfI, goal_cases)
    case 1 show ?case using wf_fin[OF assms(1)] by simp
  next
    case (2 h' p) then show ?case using wf_live[OF assms(1)] by (auto split: if_splits)
  next
    case (3 p b) then show ?case using wf_lt[OF assms(1)] * by (auto split: if_splits)
  next
    case (4 p b) then show ?case using wf_pos[OF assms(1)] by (auto split: if_splits)
  next
    case (5 r b')
    then show ?case using * assms(1) fin nin
      by (auto simp: owners_upd_d wf_count split: if_splits)
  qed
qed

text \<open>The death of one owner.\<close>

lemma wf_release:
  assumes "wf s" "d s h = Some p" "release ptr p s = Some s1"
  shows "wf (s1\<lparr>d := (d s1)(h := None)\<rparr>)"
proof -
  from assms obtain b where b: "heap s p = Some b" by (auto dest: wf_live)
  have fin: "finite (owners s r)" for r using assms(1) by (rule wf_finite_owners)
  have hin: "h \<in> owners s p" using assms by (simp add: owners_def)
  have cnt: "use_count b = card (owners s p)" using assms(1) b by (rule wf_count)
  have other: "r \<noteq> p \<Longrightarrow> owners s r - {h} = owners s r" for r
    using assms(2) by (auto simp: owners_def)
  show ?thesis
  proof (cases "1 < use_count b")
    case True
    with assms b have s1: "s1 = s\<lparr>heap := (heap s)(p \<mapsto> b\<lparr>use_count := use_count b - 1\<rparr>)\<rparr>"
      by (simp add: release_def)
    show ?thesis unfolding s1
    proof (rule wfI, goal_cases)
      case 1 show ?case using wf_fin[OF assms(1)] by simp
    next
      case (2 h' p) then show ?case using wf_live[OF assms(1)] by (auto split: if_splits)
    next
      case (3 p b) then show ?case using wf_lt[OF assms(1)] b by (auto split: if_splits)
    next
      case (4 p b) then show ?case using wf_pos[OF assms(1)] True by (auto split: if_splits)
    next
      case (5 r b')
      then show ?case using assms(1) fin hin cnt other
        by (auto simp: owners_del_d wf_count split: if_splits)
    qed
  next
    case False
    with assms b have s1: "s1 = s\<lparr>heap := (heap s)(p := None),
        deleted := deleted s @ snd (ListPrivate_clear ptr (obj b))\<rparr>"
      by (simp add: release_def)
    have "0 < card (owners s p)" using hin fin[of p] by (auto simp: card_gt_0_iff)
    with False cnt have "card (owners s p) = 1" by simp
    then obtain x where "owners s p = {x}" by (rule card_1_singletonE)
    with hin have one: "owners s p = {h}" by simp
    show ?thesis unfolding s1
    proof (rule wfI, goal_cases)
      case 1 show ?case using wf_fin[OF assms(1)] by simp
    next
      case (2 h' p') then show ?case using wf_live[OF assms(1)] one by (auto simp: owners_def split: if_splits)
    next
      case (3 p b) then show ?case using wf_lt[OF assms(1)] b by (auto split: if_splits)
    next
      case (4 p b) then show ?case using wf_pos[OF assms(1)] by (auto split: if_splits)
    next
      case (5 r b')
      then show ?case using assms(1) other
        by (auto simp: owners_del_d wf_count split: if_splits)
    qed
  qed
qed

lemma wf_List_dtor: "wf s \<Longrightarrow> List_dtor ptr h s = Some s' \<Longrightarrow> wf s'"
  by (auto simp: List_dtor_def bind_eq_Some_conv wf_release)

lemma List_detach_cases:
  assumes "List_detach h s = Some s'"
  obtains (shared) p b where "d s h = Some p" "heap s p = Some b" "1 < use_count b"
      "s' = s\<lparr>heap := (heap s)(p \<mapsto> b\<lparr>use_count := use_count b - 1\<rparr>,
                                 nxt s \<mapsto> \<lparr>use_count = 1,
                                            obj = \<lparr>autoDelete = False, lst = lst (obj b)\<rparr>\<rparr>),
                 nxt := Suc (nxt s), d := (d s)(h \<mapsto> nxt s)\<rparr>"
    | (sole) p b where "d s h = Some p" "heap s p = Some b" "\<not> 1 < use_count b" "s' = s"
proof -
  from assms obtain p b where pb: "d s h = Some p" "heap s p = Some b"
    by (auto simp: List_detach_def bind_eq_Some_conv)
  show thesis
  proof (cases "1 < use_count b")
    case True
    with assms pb show thesis by (intro shared[of p b]) (auto simp: List_detach_def make_shared_def)
  next
    case False
    with assms pb show thesis by (intro sole[of p b]) (auto simp: List_detach_def)
  qed
qed

lemma List_detach_Some:
  "d s h = Some p \<Longrightarrow> heap s p = Some b \<Longrightarrow> \<exists>s'. List_detach h s = Some s'"
  by (simp add: List_detach_def make_shared_def)

lemma wf_List_detach:
  assumes "wf s" "List_detach h s = Some s'"
  shows "wf s'"
  using assms(2)
proof (cases rule: List_detach_cases)
  case (shared p b)
  have fin: "finite (owners s r)" for r using assms(1) by (rule wf_finite_owners)
  have hin: "h \<in> owners s p" using shared by (simp add: owners_def)
  have cnt: "use_count b = card (owners s p)" using assms(1) shared(2) by (rule wf_count)
  have other: "r \<noteq> p \<Longrightarrow> owners s r - {h} = owners s r" for r
    using shared(1) by (auto simp: owners_def)
  have pn: "p \<noteq> nxt s" using wf_lt[OF assms(1) shared(2)] by simp
  show ?thesis unfolding shared(4)
  proof (rule wfI, goal_cases)
    case 1 show ?case using wf_fin[OF assms(1)] by simp
  next
    case (2 h' p) then show ?case using wf_live[OF assms(1)] by (auto split: if_splits)
  next
    case (3 p b) then show ?case using wf_lt[OF assms(1)] shared
      by (auto simp: less_Suc_eq split: if_splits)
  next
    case (4 p b) then show ?case using wf_pos[OF assms(1)] shared by (auto split: if_splits)
  next
    case (5 r b')
    then show ?case using assms(1) fin hin cnt other pn wf_fresh_owners[OF assms(1)]
      by (auto simp: owners_upd_d wf_count split: if_splits)
  qed
next
  case (sole p b)
  then show ?thesis using assms(1) by simp
qed

lemma wf_List_swap:
  assumes "wf s" "List_swap h l s = Some s'"
  shows "wf s'"
proof -
  from assms(2) obtain p q where pq: "d s h = Some p" "d s l = Some q"
    and s': "s' = s\<lparr>d := (d s)(h \<mapsto> q, l \<mapsto> p)\<rparr>"
    by (auto simp: List_swap_def bind_eq_Some_conv)
  have fin: "finite (owners s r)" for r using assms(1) by (rule wf_finite_owners)
  show ?thesis
  proof (cases "p = q")
    case True
    with pq have "(d s)(h \<mapsto> q, l \<mapsto> p) = d s" by (auto simp: fun_eq_iff)
    with s' assms(1) show ?thesis by simp
  next
    case False
    with pq have hl: "h \<noteq> l" by auto
    have ow: "owners s' r = (if r = p then insert l (owners s p - {h})
                             else if r = q then insert h (owners s q - {l}) else owners s r)" for r
      using pq False hl unfolding s' owners_def by (auto split: if_splits)
    have swap_card: "card (insert y (A - {x})) = card A"
      if "finite A" "x \<in> A" "y \<notin> A" for x y :: 'a and A
    proof -
      have "card (insert y (A - {x})) = Suc (card (A - {x}))"
        using that by (intro card_insert_disjoint) auto
      also have "\<dots> = card A" using that by (intro card_Suc_Diff1) auto
      finally show ?thesis .
    qed
    have cp: "card (insert l (owners s p - {h})) = card (owners s p)"
      using pq False by (intro swap_card fin) (auto simp: owners_def)
    have cq: "card (insert h (owners s q - {l})) = card (owners s q)"
      using pq False by (intro swap_card fin) (auto simp: owners_def)
    show ?thesis
    proof (rule wfI, goal_cases)
      case 1 show ?case using wf_fin[OF assms(1)] by (simp add: s')
    next
      case (2 h' p) then show ?case using wf_live[OF assms(1)] pq by (auto simp: s' split: if_splits)
    next
      case (3 p b) then show ?case using wf_lt[OF assms(1)] by (auto simp: s')
    next
      case (4 p b) then show ?case using wf_pos[OF assms(1)] by (auto simp: s')
    next
      case (5 r b')
      then have "heap s r = Some b'" by (simp add: s')
      then show ?case using wf_count[OF assms(1), of r b'] cp cq by (simp add: ow)
    qed
  qed
qed

lemma List_assign_self:
  assumes "d s h = Some p" "d s l = Some p" "heap s p = Some b" "0 < use_count b"
  shows "List_assign ptr h l s = Some s"
proof -
  have "(heap s)(p \<mapsto> b) = heap s" using assms(3) by (auto simp: fun_eq_iff)
  moreover have "(d s)(h \<mapsto> p) = d s" using assms(1) by (auto simp: fun_eq_iff)
  ultimately show ?thesis using assms
    by (simp add: List_assign_def acquire_def release_def)
qed

lemma List_assign_other:
  assumes "d s h = Some p" "d s l = Some q" "heap s q = Some bq" "p \<noteq> q"
  shows "List_assign ptr h l s =
         Option.bind (release ptr p s)
           (\<lambda>s1. List_copy h l (s1\<lparr>d := (d s1)(h := None)\<rparr>))"
proof (cases "heap s p")
  case None
  then show ?thesis using assms by (simp add: List_assign_def acquire_def release_def)
next
  case (Some bp)
  then show ?thesis using assms
    by (auto simp: List_assign_def acquire_def release_def List_copy_def fun_upd_twist)
qed

lemma wf_List_assign:
  assumes "wf s" "List_assign ptr h l s = Some s'"
  shows "wf s'"
proof -
  from assms(2) obtain p q where pq: "d s h = Some p" "d s l = Some q"
    by (auto simp: List_assign_def bind_eq_Some_conv)
  from wf_live[OF assms(1) pq(2)] obtain bq where bq: "heap s q = Some bq" by blast
  show ?thesis
  proof (cases "p = q")
    case True
    with pq bq assms wf_pos[OF assms(1) bq] show ?thesis by (simp add: List_assign_self)
  next
    case False
    from assms(2) obtain s1 where s1: "release ptr p s = Some s1"
      and c: "List_copy h l (s1\<lparr>d := (d s1)(h := None)\<rparr>) = Some s'"
      unfolding List_assign_other[OF pq bq False] by (auto simp: bind_eq_Some_conv)
    from wf_release[OF assms(1) pq(1) s1] c show ?thesis by (rule wf_copy)
  qed
qed

lemma wf_List_setAutoDelete:
  assumes "wf s" "List_setAutoDelete h a s = Some s'"
  shows "wf s'"
proof -
  from assms(2) obtain s1 p b where "List_detach h s = Some s1" "heap s1 p = Some b"
    "s' = s1\<lparr>heap := (heap s1)(p \<mapsto> b\<lparr>obj := (obj b)\<lparr>autoDelete := a\<rparr>\<rparr>)\<rparr>"
    by (auto simp: List_setAutoDelete_def bind_eq_Some_conv)
  with wf_List_detach[OF assms(1)] show ?thesis by (simp add: wf_obj)
qed

lemma wf_List_append: "wf s \<Longrightarrow> List_append h x s = Some s' \<Longrightarrow> wf s'"
  by (auto simp: List_append_def bind_eq_Some_conv dest: wf_List_detach wf_upd_list)

section \<open>The example states\<close>

lemma ex1_built: "List_ctor_init 0 [1, 3, 5] init = Some ex1"
  by (simp add: List_ctor_init_def make_shared_def init_def ex1_def)

lemma wf_ex1: "wf ex1"
  using wf_List_ctor_init[OF wf_init ex1_built] .

lemma elems_ex1: "elems ex1 0 = Some [1, 3, 5]"
  by (simp add: elems_def priv_def ex1_def)

lemma ex2_built: "List_ctor_init 1 [2, 4] ex1 = Some ex2"
  by (simp add: List_ctor_init_def make_shared_def ex1_def ex2_def)

lemma wf_ex2: "wf ex2"
  using wf_List_ctor_init[OF wf_ex1 ex2_built] .

lemma d_ex2: "d ex2 0 = Some 0" "d ex2 1 = Some 1"
  by (simp_all add: ex2_def)

lemma elems_ex2: "elems ex2 0 = Some [1, 3, 5]" "elems ex2 1 = Some [2, 4]"
  by (simp_all add: elems_def priv_def ex2_def)

lemma ex3_built: "List_setAutoDelete 0 True ex1 \<bind> List_copy 1 0 = Some ex3"
  by (simp add: List_setAutoDelete_def List_detach_def List_copy_def acquire_def ex1_def ex3_def)
     (simp only: numeral_2_eq_2)

lemma wf_ex3: "wf ex3"
proof -
  from ex3_built obtain s1 where "List_setAutoDelete 0 True ex1 = Some s1" "List_copy 1 0 s1 = Some ex3"
    by (auto simp: bind_eq_Some_conv)
  with wf_ex1 show ?thesis by (blast intro: wf_List_setAutoDelete wf_copy)
qed

lemma ex4_built: "List_ctor 2 ex3 = Some ex4"
  by (simp add: List_ctor_def make_shared_def ex3_def ex4_def)

lemma wf_ex4: "wf ex4"
  using wf_List_ctor[OF wf_ex3 ex4_built] .

lemma elems_ex3: "elems ex3 0 = Some [1, 3, 5]" "elems ex3 1 = Some [1, 3, 5]"
  by (simp_all add: elems_def priv_def ex3_def)

section \<open>size\<close>

lemma unat_size_cast: "unat (ucast (word_of_nat n :: 64 word) :: 32 word) = n mod 2 ^ 32"
proof -
  have "unat (ucast (word_of_nat n :: 64 word) :: 32 word) = (n mod 2 ^ 64) mod 2 ^ 32"
    by (simp add: unsigned_ucast_eq unat_of_nat take_bit_eq_mod)
  also have "\<dots> = n mod 2 ^ 32"
    by (rule mod_mod_cancel) simp
  finally show ?thesis .
qed

text \<open>
  C10. \<^verbatim>\<open>size()\<close> casts the length of the list to \<^verbatim>\<open>unsigned int\<close>: for every list
  with element sequence \<open>xs\<close> it returns \<open>length xs\<close> modulo \<open>2 ^ 32\<close>, which is the exact
  number of elements when that number is below \<open>2 ^ 32\<close>.
\<close>

theorem List_size_truncates:
  assumes "elems s h = Some xs"
  shows "\<exists>w. List_size h s = Some w \<and> unat w = length xs mod 2 ^ 32 \<and>
             (length xs < 2 ^ 32 \<longrightarrow> unat w = length xs)"
  using assms by (simp add: List_size_def unat_size_cast)

theorem List_size_truncates_witness:
  "elems ex1 0 = Some [1, 3, 5] \<and> List_size 0 ex1 = Some 3"
proof -
  from List_size_truncates[OF elems_ex1]
  obtain w where w: "List_size 0 ex1 = Some w" "unat w = 3" by auto
  then have "w = 3" by (simp add: word_unat_eq_iff)
  with w elems_ex1 show ?thesis by simp
qed

section \<open>Reading a list, and what detach leaves behind\<close>

lemma elemsD: "elems s h = Some xs \<Longrightarrow> \<exists>p b. d s h = Some p \<and> heap s p = Some b \<and> lst (obj b) = xs"
  by (auto simp: elems_def priv_def bind_eq_Some_conv)

lemma elemsI: "d s h = Some p \<Longrightarrow> heap s p = Some b \<Longrightarrow> elems s h = Some (lst (obj b))"
  by (simp add: elems_def priv_def)

lemma privI: "d s h = Some p \<Longrightarrow> heap s p = Some b \<Longrightarrow> priv s h = Some (obj b)"
  by (simp add: priv_def)

text \<open>What \<open>detach\<close> leaves behind for the calling list: a block with the same elements
  and at most one owner.\<close>

lemma List_detach_result:
  assumes "d s h = Some p" "heap s p = Some b"
  obtains s' p' b' where "List_detach h s = Some s'" "d s' h = Some p'" "heap s' p' = Some b'"
    "lst (obj b') = lst (obj b)" "use_count b' \<le> 1" "deleted s' = deleted s"
proof -
  have "\<exists>s' p' b'. List_detach h s = Some s' \<and> d s' h = Some p' \<and> heap s' p' = Some b' \<and>
          lst (obj b') = lst (obj b) \<and> use_count b' \<le> 1 \<and> deleted s' = deleted s"
  proof (cases "1 < use_count b")
    case True
    with assms show ?thesis by (simp add: List_detach_def make_shared_def)
  next
    case False
    with assms show ?thesis by (simp add: List_detach_def)
  qed
  with that show thesis by blast
qed

lemma List_detach_d_other: "List_detach h s = Some s' \<Longrightarrow> l \<noteq> h \<Longrightarrow> d s' l = d s l"
  by (erule List_detach_cases) auto

lemma upd_list_d: "upd_list h f s = Some s' \<Longrightarrow> d s' = d s"
  by (auto simp: upd_list_def bind_eq_Some_conv)

lemma List_append_elems:
  assumes "elems s h = Some xs"
  shows "\<exists>s'. List_append h x s = Some s' \<and> elems s' h = Some (xs @ [x])"
proof -
  from elemsD[OF assms] obtain p b where pb: "d s h = Some p" "heap s p = Some b" "lst (obj b) = xs"
    by blast
  from pb(1,2) obtain s1 p1 b1 where s1: "List_detach h s = Some s1" "d s1 h = Some p1"
      "heap s1 p1 = Some b1" "lst (obj b1) = lst (obj b)"
    by (rule List_detach_result)
  with pb(3) show ?thesis
    by (simp add: List_append_def upd_list_def elems_def priv_def)
qed

lemma List_append_d_other:
  assumes "List_append h x s = Some s'" "l \<noteq> h"
  shows "d s' l = d s l"
proof -
  from assms(1) obtain s1 where "List_detach h s = Some s1" "upd_list h (\<lambda>xs. xs @ [x]) s1 = Some s'"
    by (auto simp: List_append_def bind_eq_Some_conv)
  with assms(2) show ?thesis
    using List_detach_d_other[of h s s1 l] upd_list_d[of h _ s1 s'] by simp
qed

lemma append_all_elems:
  assumes "elems s h = Some ys" "wf s"
  shows "\<exists>s'. append_all h xs s = Some s' \<and> elems s' h = Some (ys @ xs) \<and> wf s' \<and>
           (\<forall>l. l \<noteq> h \<longrightarrow> d s' l = d s l)"
  using assms
proof (induction xs arbitrary: s ys)
  case Nil
  then show ?case by simp
next
  case (Cons x xs)
  from List_append_elems[OF Cons.prems(1), of x] obtain s1
    where s1: "List_append h x s = Some s1" "elems s1 h = Some (ys @ [x])" by blast
  from Cons.prems(2) s1(1) have w1: "wf s1" by (rule wf_List_append)
  from Cons.IH[OF s1(2) w1] obtain s' where
    s': "append_all h xs s1 = Some s'" "elems s' h = Some ((ys @ [x]) @ xs)" "wf s'"
      "\<forall>l. l \<noteq> h \<longrightarrow> d s' l = d s1 l" by blast
  with s1 show ?case by (auto simp: List_append_d_other)
qed

lemma List_ctor_result:
  assumes "wf s" "d s h = None"
  shows "\<exists>s'. List_ctor_init h ini s = Some s' \<and> wf s' \<and> d s' h = Some (nxt s) \<and>
          elems s' h = Some ini \<and> (\<forall>l. l \<noteq> h \<longrightarrow> d s' l = d s l \<and> elems s' l = elems s l)"
proof -
  have "elems (s\<lparr>heap := (heap s)(nxt s \<mapsto> b), nxt := n, d := (d s)(h \<mapsto> nxt s)\<rparr>) l = elems s l"
    if "l \<noteq> h" for l b n
  proof (cases "d s l")
    case None
    with that show ?thesis by (simp add: elems_def priv_def)
  next
    case (Some q)
    with wf_live[OF assms(1) Some] wf_fresh[OF assms(1)] have "q \<noteq> nxt s" by auto
    with Some that show ?thesis by (simp add: elems_def priv_def)
  qed
  moreover have "\<exists>s'. List_ctor_init h ini s = Some s'"
    using assms by (simp add: List_ctor_init_def make_shared_def)
  ultimately show ?thesis
    using assms wf_new[OF assms, of "\<lparr>autoDelete = False, lst = ini\<rparr>"]
    by (auto simp: List_ctor_init_def make_shared_def elemsI)
qed

lemma List_ctor_eq: "List_ctor h s = List_ctor_init h [] s"
  by (simp add: List_ctor_def List_ctor_init_def)

section \<open>setAutoDelete\<close>

text \<open>
  C9. The flag \<open>autoDelete\<close> is a member of \<^verbatim>\<open>ListPrivateBase\<close> and is stored for every
  element type: for every list, after \<^verbatim>\<open>setAutoDelete(a)\<close> the getter \<^verbatim>\<open>autoDelete()\<close>
  returns \<open>a\<close>; with the generic \<^verbatim>\<open>ListPrivate\<close> (element type not a pointer) neither
  \<^verbatim>\<open>clear()\<close> nor the destructor then deletes anything.
\<close>

theorem setAutoDelete_any_type:
  assumes "elems s h = Some xs"
  shows "\<exists>s'. List_setAutoDelete h a s = Some s' \<and> List_autoDelete h s' = Some a \<and>
           (\<exists>s''. List_clear False h s' = Some s'' \<and> deleted s'' = deleted s') \<and>
           (\<exists>s''. List_dtor False h s' = Some s'' \<and> deleted s'' = deleted s')"
proof -
  from elemsD[OF assms] obtain p b where pb: "d s h = Some p" "heap s p = Some b" by blast
  from pb obtain s1 p1 b1 where s1: "List_detach h s = Some s1" "d s1 h = Some p1"
      "heap s1 p1 = Some b1" "use_count b1 \<le> 1"
    by (rule List_detach_result)
  define s' where "s' = s1\<lparr>heap := (heap s1)(p1 \<mapsto> b1\<lparr>obj := (obj b1)\<lparr>autoDelete := a\<rparr>\<rparr>)\<rparr>"
  have set: "List_setAutoDelete h a s = Some s'"
    using s1 by (simp add: List_setAutoDelete_def s'_def)
  have h': "d s' h = Some p1" "heap s' p1 = Some (b1\<lparr>obj := (obj b1)\<lparr>autoDelete := a\<rparr>\<rparr>)"
    using s1 by (simp_all add: s'_def)
  have get: "List_autoDelete h s' = Some a"
    using h' by (simp add: List_autoDelete_def priv_def)
  have det: "List_detach h s' = Some s'"
    using h' s1(4) by (simp add: List_detach_def)
  have clr: "\<exists>s''. List_clear False h s' = Some s'' \<and> deleted s'' = deleted s'"
    using det h' by (simp add: List_clear_def ListPrivate_clear_def)
  have dtor: "\<exists>s''. List_dtor False h s' = Some s'' \<and> deleted s'' = deleted s'"
    using h' by (simp add: List_dtor_def release_def ListPrivate_clear_def)
  from set get clr dtor show ?thesis by blast
qed

theorem setAutoDelete_any_type_witness:
  "elems ex1 0 = Some [1, 3, 5] \<and>
   (\<exists>s'. List_setAutoDelete 0 True ex1 = Some s' \<and> List_autoDelete 0 s' = Some True \<and>
      (\<exists>s''. List_clear False 0 s' = Some s'' \<and> deleted s'' = deleted s') \<and>
      (\<exists>s''. List_dtor False 0 s' = Some s'' \<and> deleted s'' = deleted s'))"
  using setAutoDelete_any_type[OF elems_ex1, of True] elems_ex1 by simp

section \<open>swap\<close>

text \<open>
  C8. For every pair of lists, \<^verbatim>\<open>swap\<close> succeeds and exchanges the two pointers \<open>d\<close> and
  nothing else: the heap (elements, flags, counts, allocations) is untouched, so no element is
  copied and nothing is detached; swapping back restores the state, store identities
  included.
\<close>

theorem swap_handles:
  assumes "d s a = Some p" "d s b = Some q"
  shows "\<exists>s1. List_swap a b s = Some s1 \<and> d s1 = (d s)(a \<mapsto> q, b \<mapsto> p) \<and>
           heap s1 = heap s \<and> nxt s1 = nxt s \<and> deleted s1 = deleted s \<and>
           List_swap b a s1 = Some s"
proof -
  have "(d s)(a \<mapsto> q, b \<mapsto> p, b \<mapsto> (if a = b then p else q), a \<mapsto> p) = d s"
    using assms by (auto simp: fun_eq_iff)
  with assms show ?thesis
    by (auto simp: List_swap_def)
qed

theorem swap_handles_witness:
  "d ex2 0 = Some 0 \<and> d ex2 1 = Some 1 \<and>
   (\<exists>s1. List_swap 0 1 ex2 = Some s1 \<and> d s1 0 = Some 1 \<and> d s1 1 = Some 0 \<and>
      heap s1 = heap ex2 \<and> List_swap 1 0 s1 = Some ex2)"
  using swap_handles[OF d_ex2] d_ex2 by auto

section \<open>Equality\<close>

lemma list_equal_iff: "list_equal xs ys \<longleftrightarrow> xs = ys"
  by (induction xs ys rule: list_equal.induct) auto

text \<open>
  C5. \<^verbatim>\<open>operator==\<close> holds exactly when the two element sequences have the same length
  and agree at every position, whether or not the lists share a store, and \<^verbatim>\<open>operator!=\<close>
  is its negation. In particular a list built by an append loop and a list constructed from
  the initializer list with the same elements are equal although their stores differ.
\<close>

theorem List_eq_structural:
  "(elems s a = Some xs \<and> elems s b = Some ys \<longrightarrow>
      List_eq a b s = Some (length xs = length ys \<and> (\<forall>i<length xs. xs ! i = ys ! i)) \<and>
      List_ne a b s = Some (\<not> (length xs = length ys \<and> (\<forall>i<length xs. xs ! i = ys ! i)))) \<and>
   (wf t \<and> d t a = None \<and> d t b = None \<and> a \<noteq> b \<longrightarrow>
      (\<exists>t1 t2 t3. List_ctor a t = Some t1 \<and> append_all a zs t1 = Some t2 \<and>
          List_ctor_init b zs t2 = Some t3 \<and> d t3 a \<noteq> d t3 b \<and>
          List_eq a b t3 = Some True \<and> List_ne a b t3 = Some False))"
proof (intro conjI impI)
  assume "elems s a = Some xs \<and> elems s b = Some ys"
  then show "List_eq a b s = Some (length xs = length ys \<and> (\<forall>i<length xs. xs ! i = ys ! i))"
    and "List_ne a b s = Some (\<not> (length xs = length ys \<and> (\<forall>i<length xs. xs ! i = ys ! i)))"
    by (simp_all add: List_eq_def List_ne_def list_equal_iff list_eq_iff_nth_eq)
next
  assume A: "wf t \<and> d t a = None \<and> d t b = None \<and> a \<noteq> b"
  then obtain t1 where t1: "List_ctor a t = Some t1" "wf t1" "d t1 a = Some (nxt t)"
      "elems t1 a = Some []" "d t1 b = None"
    using List_ctor_result[of t a "[]"] by (auto simp: List_ctor_eq)
  from append_all_elems[OF t1(4,2), of zs] t1(5) A obtain t2 where
    t2: "append_all a zs t1 = Some t2" "elems t2 a = Some zs" "wf t2" "d t2 b = None"
    by auto
  from List_ctor_result[OF t2(3,4), of zs] A obtain t3 where
    t3: "List_ctor_init b zs t2 = Some t3" "d t3 b = Some (nxt t2)" "elems t3 b = Some zs"
      "d t3 a = d t2 a" "elems t3 a = elems t2 a"
    by auto
  from elemsD[OF t2(2)] obtain p bl where p: "d t2 a = Some p" "heap t2 p = Some bl" by blast
  with wf_lt[OF t2(3) p(2)] t3 have "d t3 a \<noteq> d t3 b" by simp
  with t1 t2 t3 show "\<exists>t1 t2 t3. List_ctor a t = Some t1 \<and> append_all a zs t1 = Some t2 \<and>
          List_ctor_init b zs t2 = Some t3 \<and> d t3 a \<noteq> d t3 b \<and>
          List_eq a b t3 = Some True \<and> List_ne a b t3 = Some False"
    by (simp add: List_eq_def List_ne_def list_equal_iff)
qed

theorem List_eq_structural_witness:
  "elems ex2 0 = Some [1, 3, 5] \<and> elems ex2 1 = Some [2, 4] \<and>
   List_eq 0 1 ex2 = Some False \<and> List_ne 0 1 ex2 = Some True \<and>
   wf (init :: (nat, int) state) \<and> d (init :: (nat, int) state) 0 = None \<and>
   d (init :: (nat, int) state) 1 = None \<and> (0::nat) \<noteq> 1 \<and>
   (\<exists>t1 t2 t3. List_ctor 0 (init :: (nat, int) state) = Some t1 \<and>
       append_all 0 [1, 3, 5] t1 = Some t2 \<and> List_ctor_init 1 [1, 3, 5] t2 = Some t3 \<and>
       d t3 0 \<noteq> d t3 1 \<and> List_eq 0 1 t3 = Some True \<and> List_ne 0 1 t3 = Some False)"
proof -
  have i: "d (init :: (nat, int) state) 0 = None" "d (init :: (nat, int) state) 1 = None"
    by (simp_all add: init_def)
  from List_eq_structural[of ex2 0 "[1, 3, 5]" 1 "[2, 4]" "init :: (nat, int) state" "[1, 3, 5]"]
  show ?thesis using elems_ex2 wf_init[where 'a = nat and 'b = int] i
    by (simp del: append_all.simps)
qed

section \<open>detach\<close>

text \<open>
  C3, as the code has it. For every list in a well-formed state whose store has a count
  greater than one, \<open>detach\<close> allocates a new store at a fresh address with count one, with a
  copy of the element sequence and with \<open>autoDelete\<close> \<^emph>\<open>false\<close> (the flag of the old store is
  not carried over); it rebinds the calling list only, the old store keeps its elements and
  its flag and loses one owner, and no other store changes. If the count is exactly one the
  state is unchanged.
\<close>

theorem detach_semantics:
  assumes "wf s" "d s h = Some p" "heap s p = Some b"
  shows "(1 < use_count b \<longrightarrow>
           (\<exists>s'. List_detach h s = Some s' \<and> heap s (nxt s) = None \<and> d s' h = Some (nxt s) \<and>
              heap s' (nxt s) =
                Some \<lparr>use_count = 1, obj = \<lparr>autoDelete = False, lst = lst (obj b)\<rparr>\<rparr> \<and>
              heap s' p = Some (b\<lparr>use_count := use_count b - 1\<rparr>) \<and>
              (\<forall>l. l \<noteq> h \<longrightarrow> d s' l = d s l) \<and>
              (\<forall>q. q \<noteq> p \<and> q \<noteq> nxt s \<longrightarrow> heap s' q = heap s q))) \<and>
         (use_count b = 1 \<longrightarrow> List_detach h s = Some s)"
proof -
  have "p \<noteq> nxt s" using wf_lt[OF assms(1,3)] by simp
  with assms wf_fresh[OF assms(1)] show ?thesis
    by (simp add: List_detach_def make_shared_def)
qed

theorem detach_semantics_witness:
  "wf ex3 \<and> d ex3 1 = Some 0 \<and> d_use_count 1 ex3 = Some 2 \<and>
   (\<exists>s'. List_detach 1 ex3 = Some s' \<and> d s' 1 = Some 1 \<and> d s' 0 = Some 0 \<and>
      priv s' 1 = Some \<lparr>autoDelete = False, lst = [1, 3, 5]\<rparr> \<and>
      priv s' 0 = Some \<lparr>autoDelete = True, lst = [1, 3, 5]\<rparr> \<and>
      d_use_count 0 s' = Some 1 \<and> d_use_count 1 s' = Some 1) \<and>
   wf ex1 \<and> d ex1 0 = Some 0 \<and> d_use_count 0 ex1 = Some 1 \<and> List_detach 0 ex1 = Some ex1"
proof -
  have 3: "d ex3 1 = Some 0"
    "heap ex3 0 = Some \<lparr>use_count = 2, obj = \<lparr>autoDelete = True, lst = [1, 3, 5]\<rparr>\<rparr>"
    "nxt ex3 = 1" "d ex3 0 = Some 0"
    by (simp_all add: ex3_def)
  have 1: "d ex1 0 = Some 0"
    "heap ex1 0 = Some \<lparr>use_count = 1, obj = \<lparr>autoDelete = False, lst = [1, 3, 5]\<rparr>\<rparr>"
    by (simp_all add: ex1_def)
  from detach_semantics[OF wf_ex3 3(1,2)] obtain s' where s': "List_detach 1 ex3 = Some s'"
     "d s' 1 = Some 1" "d s' 0 = Some 0"
     "heap s' 1 = Some \<lparr>use_count = 1, obj = \<lparr>autoDelete = False, lst = [1, 3, 5]\<rparr>\<rparr>"
     "heap s' 0 = Some \<lparr>use_count = 1, obj = \<lparr>autoDelete = True, lst = [1, 3, 5]\<rparr>\<rparr>"
    using 3 by auto
  then have "\<exists>s'. List_detach 1 ex3 = Some s' \<and> d s' 1 = Some 1 \<and> d s' 0 = Some 0 \<and>
      priv s' 1 = Some \<lparr>autoDelete = False, lst = [1, 3, 5]\<rparr> \<and>
      priv s' 0 = Some \<lparr>autoDelete = True, lst = [1, 3, 5]\<rparr> \<and>
      d_use_count 0 s' = Some 1 \<and> d_use_count 1 s' = Some 1"
    by (simp add: d_use_count_def priv_def)
  moreover from detach_semantics[OF wf_ex1 1] have "List_detach 0 ex1 = Some ex1" by simp
  ultimately show ?thesis using wf_ex1 wf_ex3 1 3
    by (simp add: d_use_count_def)
qed

text \<open>
  C3 as stated fails: in \<open>ex3\<close> the list \<open>1\<close> shares a store whose flag is set; after
  \<open>detach\<close>, and so after a detaching member such as \<^verbatim>\<open>append\<close>, its new store has the
  flag cleared.
\<close>

theorem detach_flag_counterexample:
  "List_autoDelete 1 ex3 = Some True \<and> d_use_count 1 ex3 = Some 2 \<and>
   (List_detach 1 ex3 \<bind> List_autoDelete 1) = Some False \<and>
   (List_append 1 7 ex3 \<bind> List_autoDelete 1) = Some False"
  by (simp add: List_autoDelete_def priv_def d_use_count_def List_detach_def make_shared_def
      List_append_def upd_list_def ex3_def)

section \<open>Copies and the first write\<close>

lemma shared_count:
  assumes "wf s" "d s a = Some p" "d s b = Some p" "a \<noteq> b" "heap s p = Some blk"
  shows "1 < use_count blk"
proof -
  have "{a, b} \<subseteq> owners s p" using assms by (simp add: owners_def)
  then have "card {a, b} \<le> card (owners s p)"
    using wf_finite_owners[OF assms(1)] by (intro card_mono)
  with assms(4) wf_count[OF assms(1,5)] show ?thesis by simp
qed

lemma List_copy_result:
  assumes "wf s" "d s b = None" "d s a = Some p"
  shows "\<exists>s1. List_copy b a s = Some s1 \<and> wf s1 \<and> d s1 a = Some p \<and> d s1 b = Some p \<and>
           elems s1 a = elems s a"
proof -
  from wf_live[OF assms(1,3)] obtain blk where blk: "heap s p = Some blk" by blast
  with assms obtain s1 where s1: "List_copy b a s = Some s1"
    by (simp add: List_copy_def acquire_def)
  from assms(1) s1 have "wf s1" by (rule wf_copy)
  with s1 assms blk show ?thesis
    by (auto simp: List_copy_def acquire_def elems_def priv_def)
qed

lemma release_frame:
  assumes "release ptr p s = Some s1"
  shows "d s1 = d s" "nxt s1 = nxt s" "q \<noteq> p \<Longrightarrow> heap s1 q = heap s q"
  using assms by (auto simp: release_def split: option.splits if_splits)

lemma List_assign_result:
  assumes "wf s" "d s b = Some q" "d s a = Some p" "a \<noteq> b"
  shows "\<exists>s1. List_assign ptr b a s = Some s1 \<and> wf s1 \<and> d s1 a = Some p \<and> d s1 b = Some p \<and>
           elems s1 a = elems s a"
proof -
  from wf_live[OF assms(1,3)] obtain bp where bp: "heap s p = Some bp" by blast
  from wf_live[OF assms(1,2)] obtain bq where bq: "heap s q = Some bq" by blast
  show ?thesis
  proof (cases "q = p")
    case True
    with assms bp wf_pos[OF assms(1) bp] have "List_assign ptr b a s = Some s"
      by (simp add: List_assign_self)
    with assms True show ?thesis by simp
  next
    case False
    from bq have "\<exists>s0. release ptr q s = Some s0"
      by (simp add: release_def)
    then obtain s0 where s0: "release ptr q s = Some s0" ..
    let ?s0 = "s0\<lparr>d := (d s0)(b := None)\<rparr>"
    have w0: "wf ?s0" using assms(1,2) s0 by (rule wf_release)
    have d0: "d ?s0 b = None" "d ?s0 a = Some p"
      using assms release_frame(1)[OF s0] by simp_all
    have e0: "elems ?s0 a = elems s a"
      using assms False release_frame(1)[OF s0] release_frame(3)[OF s0, of p]
      by (simp add: elems_def priv_def)
    from List_copy_result[OF w0 d0] obtain s1 where
      "List_copy b a ?s0 = Some s1" "wf s1" "d s1 a = Some p" "d s1 b = Some p"
      "elems s1 a = elems ?s0 a" by blast
    with e0 s0 show ?thesis
      using List_assign_other[OF assms(2,3) bp False, where ptr = ptr] by simp
  qed
qed

lemma append_shared:
  assumes "wf s" "d s a = Some p" "d s b = Some p" "a \<noteq> b" "elems s a = Some xs"
  shows "\<exists>s'. List_append b x s = Some s' \<and> wf s' \<and> elems s' a = Some xs \<and>
           elems s' b = Some (xs @ [x]) \<and> d s' a = Some p \<and> d s' b = Some (nxt s) \<and> p \<noteq> nxt s"
proof -
  from elemsD[OF assms(5)] assms(2) obtain blk where blk: "heap s p = Some blk" "lst (obj blk) = xs"
    by auto
  have c: "1 < use_count blk" using assms(1-4) blk(1) by (rule shared_count)
  have pn: "p \<noteq> nxt s" using wf_lt[OF assms(1) blk(1)] by simp
  from c assms blk pn obtain s' where s': "List_append b x s = Some s'"
    by (simp add: List_append_def List_detach_def make_shared_def upd_list_def)
  from assms(1) s' have "wf s'" by (rule wf_List_append)
  with s' c assms blk pn show ?thesis
    by (auto simp: List_append_def List_detach_def make_shared_def upd_list_def elems_def priv_def)
qed

text \<open>
  C1, as the code has it. Let \<open>a\<close> be a list with elements \<open>xs\<close> in a well-formed state and
  \<open>b\<close> another list object. The copy construction of \<open>b\<close> from \<open>a\<close> (when \<open>b\<close> is not alive)
  and the copy assignment \<open>b = a\<close> (when it is) succeed and make \<open>b\<close> share the store of
  \<open>a\<close>. After \<^verbatim>\<open>b.append(x)\<close> the elements of \<open>a\<close> are still \<open>xs\<close>, the elements of \<open>b\<close> are
  \<open>xs\<close> followed by \<open>x\<close>, the two lists have different stores, \<open>b\<close> contains \<open>x\<close>, and \<open>a\<close>
  contains \<open>x\<close> exactly when it did before.
\<close>

theorem copy_then_append:
  assumes "wf s" "elems s a = Some xs" "a \<noteq> b"
  shows "(d s b = None \<longrightarrow> List_copy b a s \<noteq> None) \<and>
         (d s b \<noteq> None \<longrightarrow> List_assign ptr b a s \<noteq> None) \<and>
         (\<forall>s1. List_copy b a s = Some s1 \<or> List_assign ptr b a s = Some s1 \<longrightarrow>
            d s1 b = d s1 a \<and>
            (\<exists>s2. List_append b x s1 = Some s2 \<and> elems s2 a = Some xs \<and>
               elems s2 b = Some (xs @ [x]) \<and> d s2 a \<noteq> d s2 b \<and>
               List_contains b x s2 = Some True \<and> List_contains a x s2 = Some (x \<in> set xs)))"
proof (intro conjI allI impI)
  from elemsD[OF assms(2)] obtain p where p: "d s a = Some p" by blast
  { assume "d s b = None"
    with List_copy_result[OF assms(1) _ p] show "List_copy b a s \<noteq> None" by auto }
  { assume "d s b \<noteq> None"
    then obtain q where "d s b = Some q" by auto
    from List_assign_result[OF assms(1) this p assms(3)]
    show "List_assign ptr b a s \<noteq> None" by auto }
  fix s1 assume "List_copy b a s = Some s1 \<or> List_assign ptr b a s = Some s1"
  then have s1: "wf s1 \<and> d s1 a = Some p \<and> d s1 b = Some p \<and> elems s1 a = Some xs"
  proof
    assume c: "List_copy b a s = Some s1"
    then have "d s b = None" by (auto simp: List_copy_def split: if_splits)
    from List_copy_result[OF assms(1) this p] c assms(2) show ?thesis by auto
  next
    assume c: "List_assign ptr b a s = Some s1"
    then obtain q where "d s b = Some q" by (auto simp: List_assign_def bind_eq_Some_conv)
    from List_assign_result[OF assms(1) this p assms(3), of ptr] c assms(2) show ?thesis by auto
  qed
  then show "d s1 b = d s1 a" by simp
  from s1 assms(3) append_shared[of s1 a p b xs x] obtain s2 where
    s2: "List_append b x s1 = Some s2" "elems s2 a = Some xs" "elems s2 b = Some (xs @ [x])"
      "d s2 a = Some p" "d s2 b = Some (nxt s1)" "p \<noteq> nxt s1"
    by auto
  have fp: "find_pos v ys \<noteq> length ys \<longleftrightarrow> v \<in> set ys" for v :: 'b and ys
    by (induction ys) (auto simp: find_pos_def)
  from s2 show "\<exists>s2. List_append b x s1 = Some s2 \<and> elems s2 a = Some xs \<and>
               elems s2 b = Some (xs @ [x]) \<and> d s2 a \<noteq> d s2 b \<and>
               List_contains b x s2 = Some True \<and> List_contains a x s2 = Some (x \<in> set xs)"
    by (simp add: List_contains_def fp)
qed

theorem copy_then_append_witness:
  "wf ex1 \<and> elems ex1 0 = Some [1, 3, 5] \<and> (0::nat) \<noteq> 1 \<and> d ex1 1 = None \<and>
   (\<exists>s1 s2. List_copy 1 0 ex1 = Some s1 \<and> List_append 1 4 s1 = Some s2 \<and>
      elems s2 0 = Some [1, 3, 5] \<and> elems s2 1 = Some [1, 3, 5, 4] \<and> d s2 0 \<noteq> d s2 1 \<and>
      List_contains 1 4 s2 = Some True \<and> List_contains 0 4 s2 = Some False) \<and>
   wf ex2 \<and> elems ex2 0 = Some [1, 3, 5] \<and> d ex2 1 = Some 1 \<and>
   (\<exists>s1 s2. List_assign False 1 0 ex2 = Some s1 \<and> List_append 1 4 s1 = Some s2 \<and>
      elems s2 0 = Some [1, 3, 5] \<and> elems s2 1 = Some [1, 3, 5, 4] \<and> d s2 0 \<noteq> d s2 1 \<and>
      List_contains 1 4 s2 = Some True \<and> List_contains 0 4 s2 = Some False)"
proof -
  have n: "(0::nat) \<noteq> 1" by simp
  have d1: "d ex1 1 = None" by (simp add: ex1_def)
  note t1 = copy_then_append[OF wf_ex1 elems_ex1 n, of False 4]
  from t1 d1 obtain s1 where s1: "List_copy 1 0 ex1 = Some s1" by auto
  with t1 have p1: "\<exists>s1 s2. List_copy 1 0 ex1 = Some s1 \<and> List_append 1 4 s1 = Some s2 \<and>
      elems s2 0 = Some [1, 3, 5] \<and> elems s2 1 = Some [1, 3, 5, 4] \<and> d s2 0 \<noteq> d s2 1 \<and>
      List_contains 1 4 s2 = Some True \<and> List_contains 0 4 s2 = Some False"
    by simp
  note t2 = copy_then_append[OF wf_ex2 elems_ex2(1) n, of False 4]
  from t2 d_ex2(2) obtain s2 where s2: "List_assign False 1 0 ex2 = Some s2" by auto
  with t2 have p2: "\<exists>s1 s2. List_assign False 1 0 ex2 = Some s1 \<and> List_append 1 4 s1 = Some s2 \<and>
      elems s2 0 = Some [1, 3, 5] \<and> elems s2 1 = Some [1, 3, 5, 4] \<and> d s2 0 \<noteq> d s2 1 \<and>
      List_contains 1 4 s2 = Some True \<and> List_contains 0 4 s2 = Some False"
    by simp
  from p1 p2 wf_ex1 wf_ex2 elems_ex1 elems_ex2(1) d1 d_ex2(2) show ?thesis by simp
qed

text \<open>
  C1 as stated fails where the appended value is already an element of the original: after
  copying \<open>[1, 3, 5]\<close> and appending 3 to the copy, the original contains 3.
\<close>

theorem copy_then_append_counterexample:
  "(List_copy 1 0 ex1 \<bind> List_append 1 3 \<bind> List_contains 0 3) = Some True"
  by (simp add: List_copy_def acquire_def List_append_def List_detach_def make_shared_def
      upd_list_def List_contains_def elems_def priv_def find_pos_def ex1_def)

section \<open>Assignment of an initializer list\<close>

lemma List_assign_init_result:
  assumes "wf s" "d s h = Some p" "heap s p = Some b"
  shows "\<exists>s'. List_assign_init ptr h ini s = Some s' \<and> heap s (nxt s) = None \<and>
           d s' h = Some (nxt s) \<and>
           heap s' (nxt s) =
             Some \<lparr>use_count = 1, obj = \<lparr>autoDelete = autoDelete (obj b), lst = ini\<rparr>\<rparr> \<and>
           List_autoDelete h s' = Some (autoDelete (obj b)) \<and> elems s' h = Some ini \<and>
           d s' = (d s)(h \<mapsto> nxt s)"
proof -
  have pn: "p \<noteq> nxt s" using wf_lt[OF assms(1,3)] by simp
  let ?s2 = "s\<lparr>heap := (heap s)(nxt s \<mapsto> \<lparr>use_count = 1, obj = \<lparr>autoDelete = False, lst = ini\<rparr>\<rparr>),
               nxt := Suc (nxt s), d := (d s)(h \<mapsto> nxt s)\<rparr>"
  have "\<exists>s3. release ptr p ?s2 = Some s3"
    using assms(3) pn by (simp add: release_def)
  then obtain s3 where s3: "release ptr p ?s2 = Some s3" ..
  have 3: "d s3 h = Some (nxt s)"
    "heap s3 (nxt s) = Some \<lparr>use_count = 1, obj = \<lparr>autoDelete = False, lst = ini\<rparr>\<rparr>"
    using release_frame(1)[OF s3] release_frame(3)[OF s3, of "nxt s"] pn by simp_all
  then have "List_detach h s3 = Some s3" by (simp add: List_detach_def)
  with 3 have "\<exists>s'. List_setAutoDelete h (autoDelete (obj b)) s3 = Some s' \<and>
      d s' h = Some (nxt s) \<and>
      heap s' (nxt s) =
        Some \<lparr>use_count = 1, obj = \<lparr>autoDelete = autoDelete (obj b), lst = ini\<rparr>\<rparr>"
    by (simp add: List_setAutoDelete_def)
  moreover have "List_setAutoDelete h a s3 = Some s' \<Longrightarrow> d s' = (d s)(h \<mapsto> nxt s)" for a s'
    using release_frame(1)[OF s3] \<open>List_detach h s3 = Some s3\<close>
    by (auto simp: List_setAutoDelete_def bind_eq_Some_conv)
  ultimately obtain s' where s': "List_setAutoDelete h (autoDelete (obj b)) s3 = Some s'"
      "d s' h = Some (nxt s)"
      "heap s' (nxt s) =
        Some \<lparr>use_count = 1, obj = \<lparr>autoDelete = autoDelete (obj b), lst = ini\<rparr>\<rparr>"
      "d s' = (d s)(h \<mapsto> nxt s)"
    by blast
  have "List_assign_init ptr h ini s = Some s'"
    using assms s3 s'(1) by (simp add: List_assign_init_def make_shared_def)
  with s' wf_fresh[OF assms(1)] show ?thesis
    by (simp add: List_autoDelete_def priv_def elems_def)
qed

text \<open>
  C6. For every list in a well-formed state, \<^verbatim>\<open>operator=(std::initializer_list<T>)\<close>
  succeeds and leaves the list on a store at an address that was not allocated before, with
  one owner, holding exactly the given elements, and with the \<open>autoDelete\<close> flag the list had
  before the assignment (so a flag that was enabled is enabled on the new store).
\<close>

theorem assign_init_fresh_store:
  assumes "wf s" "d s h = Some p" "heap s p = Some b"
  shows "\<exists>s'. List_assign_init ptr h ini s = Some s' \<and> heap s (nxt s) = None \<and>
           d s' h = Some (nxt s) \<and>
           heap s' (nxt s) =
             Some \<lparr>use_count = 1, obj = \<lparr>autoDelete = autoDelete (obj b), lst = ini\<rparr>\<rparr> \<and>
           List_autoDelete h s' = Some (autoDelete (obj b)) \<and> elems s' h = Some ini"
  using List_assign_init_result[OF assms, of ptr ini] by blast

theorem assign_init_fresh_store_witness:
  "wf ex3 \<and> d ex3 1 = Some 0 \<and> List_autoDelete 1 ex3 = Some True \<and>
   (\<exists>s'. List_assign_init False 1 [7, 8] ex3 = Some s' \<and> heap ex3 1 = None \<and>
      d s' 1 = Some 1 \<and> d_use_count 1 s' = Some 1 \<and>
      List_autoDelete 1 s' = Some True \<and> elems s' 1 = Some [7, 8])"
proof -
  have 3: "d ex3 1 = Some 0"
    "heap ex3 0 = Some \<lparr>use_count = 2, obj = \<lparr>autoDelete = True, lst = [1, 3, 5]\<rparr>\<rparr>"
    by (simp_all add: ex3_def)
  have n: "nxt ex3 = 1" by (simp add: ex3_def)
  from assign_init_fresh_store[OF wf_ex3 3, of False "[7, 8]"]
  obtain s' where "List_assign_init False 1 [7, 8] ex3 = Some s'" "heap ex3 1 = None"
    "d s' 1 = Some 1"
    "heap s' 1 = Some \<lparr>use_count = 1, obj = \<lparr>autoDelete = True, lst = [7, 8]\<rparr>\<rparr>"
    "List_autoDelete 1 s' = Some True" "elems s' 1 = Some [7, 8]"
    unfolding n by auto
  then have "\<exists>s'. List_assign_init False 1 [7, 8] ex3 = Some s' \<and> heap ex3 1 = None \<and>
      d s' 1 = Some 1 \<and> d_use_count 1 s' = Some 1 \<and>
      List_autoDelete 1 s' = Some True \<and> elems s' 1 = Some [7, 8]"
    by (simp add: d_use_count_def)
  moreover have "List_autoDelete 1 ex3 = Some True"
    using 3 by (simp add: List_autoDelete_def priv_def)
  ultimately show ?thesis using wf_ex3 3 by simp
qed

section \<open>erase\<close>

lemma valid_posD:
  assumes "valid_pos h it s"
  obtains b where "d s h = Some (it_store it)" "heap s (it_store it) = Some b"
    "it_pos it < length (lst (obj b))"
  using assms by (auto simp: valid_pos_def split: option.splits)

text \<open>
  C7. \<^verbatim>\<open>begin()\<close> of a non-empty list is a position of that list, pointing to its first
  element. For every position \<open>it\<close> of the list \<open>h\<close> (an iterator into the store \<open>h\<close> has now,
  pointing to an element), \<^verbatim>\<open>erase(it)\<close> succeeds without detaching: no pointer \<open>d\<close> changes,
  nothing is allocated, the count of the store and every other store are unchanged; the
  element at the position and no other is removed, so the length drops by exactly one; and
  the result is the position of the element that followed the removed one, or \<^verbatim>\<open>end()\<close>
  when the last element was removed.
\<close>

theorem erase_at_position:
  "(elems s0 h = Some xs0 \<and> xs0 \<noteq> [] \<longrightarrow>
      (\<exists>it0 s1. List_begin h s0 = Some (it0, s1) \<and> valid_pos h it0 s1 \<and>
          elems s1 h = Some xs0 \<and> deref it0 s1 = Some (xs0 ! 0))) \<and>
   (valid_pos h it s \<and> elems s h = Some xs \<longrightarrow>
      (\<exists>s'. List_erase h it s = Some (it, s') \<and>
          d s' = d s \<and> nxt s' = nxt s \<and> d_use_count h s' = d_use_count h s \<and>
          (\<forall>q. q \<noteq> it_store it \<longrightarrow> heap s' q = heap s q) \<and>
          elems s' h = Some (take (it_pos it) xs @ drop (Suc (it_pos it)) xs) \<and>
          Suc (length (take (it_pos it) xs @ drop (Suc (it_pos it)) xs)) = length xs \<and>
          (Suc (it_pos it) < length xs \<longrightarrow> deref it s' = Some (xs ! Suc (it_pos it))) \<and>
          (Suc (it_pos it) = length xs \<longrightarrow> List_cend h s' = Some it)))"
proof (intro conjI impI)
  assume "elems s0 h = Some xs0 \<and> xs0 \<noteq> []"
  then obtain p b where pb: "d s0 h = Some p" "heap s0 p = Some b" "lst (obj b) = xs0" "xs0 \<noteq> []"
    using elemsD[of s0 h xs0] by blast
  from pb(1,2) obtain s1 p1 b1 where s1: "List_detach h s0 = Some s1" "d s1 h = Some p1"
      "heap s1 p1 = Some b1" "lst (obj b1) = lst (obj b)"
    by (rule List_detach_result)
  with pb show "\<exists>it0 s1. List_begin h s0 = Some (it0, s1) \<and> valid_pos h it0 s1 \<and>
          elems s1 h = Some xs0 \<and> deref it0 s1 = Some (xs0 ! 0)"
    by (simp add: List_begin_def valid_pos_def elems_def priv_def deref_def)
next
  assume A: "valid_pos h it s \<and> elems s h = Some xs"
  then obtain b where b: "d s h = Some (it_store it)" "heap s (it_store it) = Some b"
    "it_pos it < length (lst (obj b))"
    by (auto elim: valid_posD)
  with A have xs: "lst (obj b) = xs" by (simp add: elems_def priv_def)
  have eq: "it = \<lparr>it_store = it_store it, it_pos = it_pos it\<rparr>" by simp
  have nth: "Suc (it_pos it) < length xs \<Longrightarrow>
      (take (it_pos it) xs @ drop (Suc (it_pos it)) xs) ! it_pos it = xs ! Suc (it_pos it)"
    by (simp add: nth_append)
  from b xs nth show "\<exists>s'. List_erase h it s = Some (it, s') \<and>
          d s' = d s \<and> nxt s' = nxt s \<and> d_use_count h s' = d_use_count h s \<and>
          (\<forall>q. q \<noteq> it_store it \<longrightarrow> heap s' q = heap s q) \<and>
          elems s' h = Some (take (it_pos it) xs @ drop (Suc (it_pos it)) xs) \<and>
          Suc (length (take (it_pos it) xs @ drop (Suc (it_pos it)) xs)) = length xs \<and>
          (Suc (it_pos it) < length xs \<longrightarrow> deref it s' = Some (xs ! Suc (it_pos it))) \<and>
          (Suc (it_pos it) = length xs \<longrightarrow> List_cend h s' = Some it)"
    by (auto simp: List_erase_def upd_list_def d_use_count_def elems_def priv_def deref_def
        List_cend_def min_def)
qed

theorem erase_at_position_witness:
  "elems ex1 0 = Some [1, 3, 5] \<and> [1, 3, 5 :: int] \<noteq> [] \<and>
   List_begin 0 ex1 = Some (\<lparr>it_store = 0, it_pos = 0\<rparr>, ex1) \<and>
   valid_pos 0 \<lparr>it_store = 0, it_pos = 0\<rparr> ex1 \<and>
   (\<exists>s'. List_erase 0 \<lparr>it_store = 0, it_pos = 0\<rparr> ex1 = Some (\<lparr>it_store = 0, it_pos = 0\<rparr>, s') \<and>
      d s' = d ex1 \<and> d_use_count 0 s' = d_use_count 0 ex1 \<and> elems s' 0 = Some [3, 5] \<and>
      deref \<lparr>it_store = 0, it_pos = 0\<rparr> s' = Some 3)"
proof -
  note t = erase_at_position[of ex1 0 "[1, 3, 5]" "\<lparr>it_store = 0, it_pos = 0\<rparr>" ex1 "[1, 3, 5]"]
  have b: "List_begin 0 ex1 = Some (\<lparr>it_store = 0, it_pos = 0\<rparr>, ex1)"
    by (simp add: List_begin_def List_detach_def ex1_def)
  from t elems_ex1 b have v: "valid_pos 0 \<lparr>it_store = 0, it_pos = 0\<rparr> ex1" by simp
  with t elems_ex1 have "\<exists>s'. List_erase 0 \<lparr>it_store = 0, it_pos = 0\<rparr> ex1 =
        Some (\<lparr>it_store = 0, it_pos = 0\<rparr>, s') \<and>
      d s' = d ex1 \<and> d_use_count 0 s' = d_use_count 0 ex1 \<and> elems s' 0 = Some [3, 5] \<and>
      deref \<lparr>it_store = 0, it_pos = 0\<rparr> s' = Some 3"
    by auto
  with elems_ex1 b v show ?thesis by simp
qed

section \<open>sortedInsert\<close>

text \<open>On a store with at most one owner the members \<^verbatim>\<open>begin()\<close>, \<^verbatim>\<open>end()\<close> and
  \<open>detach\<close> leave the state as it is, and the loop stops at the first element that is not
  less than the value.\<close>

lemma List_end_sole:
  assumes "d s h = Some p" "heap s p = Some b" "use_count b \<le> 1"
  shows "List_end h s = Some (\<lparr>it_store = p, it_pos = length (lst (obj b))\<rparr>, s)"
    and "List_begin h s = Some (\<lparr>it_store = p, it_pos = 0\<rparr>, s)"
    and "List_detach h s = Some s"
  using assms by (simp_all add: List_end_def List_begin_def List_detach_def)

lemma sortedInsert_loop_sole:
  assumes "d s h = Some p" "heap s p = Some b" "use_count b \<le> 1" "lst (obj b) = xs"
    and "i \<le> length xs"
  shows "sortedInsert_loop h v \<lparr>it_store = p, it_pos = i\<rparr> s =
         Some (\<lparr>it_store = p, it_pos = i + length (takeWhile (\<lambda>y. y < v) (drop i xs))\<rparr>, s)"
  using assms(5)
proof (induction "length xs - i" arbitrary: i)
  case 0
  then have "i = length xs" by simp
  then show ?case using assms(4)
    by (subst sortedInsert_loop.simps) (simp add: List_end_sole(1)[OF assms(1-3)])
next
  case (Suc n)
  then have i: "i < length xs" by simp
  then have dr: "drop i xs = xs ! i # drop (Suc i) xs" by (simp add: Cons_nth_drop_Suc)
  have de: "deref \<lparr>it_store = p, it_pos = i\<rparr> s = Some (xs ! i)"
    using assms i by (simp add: deref_def)
  show ?case
  proof (cases "xs ! i < v")
    case True
    from Suc have "n = length xs - Suc i" "Suc i \<le> length xs" by simp_all
    from Suc.hyps(1)[OF this] True i de assms(4) show ?thesis
      by (subst sortedInsert_loop.simps)
         (simp add: List_end_sole(1)[OF assms(1-3)] incr_def dr)
  next
    case False
    with i de assms(4) show ?thesis
      by (subst sortedInsert_loop.simps)
         (simp add: List_end_sole(1)[OF assms(1-3)] dr)
  qed
qed

lemma takeWhile_first:
  "length (takeWhile P xs) \<le> length xs"
  "\<forall>i<length (takeWhile P xs). P (xs ! i)"
  "length (takeWhile P xs) < length xs \<longrightarrow> \<not> P (xs ! length (takeWhile P xs))"
proof -
  show "length (takeWhile P xs) \<le> length xs" by (simp add: length_takeWhile_le)
  show "\<forall>i<length (takeWhile P xs). P (xs ! i)"
  proof (intro allI impI)
    fix i assume i: "i < length (takeWhile P xs)"
    then have "takeWhile P xs ! i \<in> set (takeWhile P xs)" by simp
    then have "P (takeWhile P xs ! i)" by (rule set_takeWhileD[THEN conjunct2])
    with i show "P (xs ! i)" by (simp add: takeWhile_nth)
  qed
  show "length (takeWhile P xs) < length xs \<longrightarrow> \<not> P (xs ! length (takeWhile P xs))"
    by (simp add: nth_length_takeWhile)
qed

lemma List_sortedInsert_result:
  assumes "d s h = Some p" "heap s p = Some b"
  shows "\<exists>s1 p1 b1. List_detach h s = Some s1 \<and> d s1 h = Some p1 \<and> heap s1 p1 = Some b1 \<and>
           lst (obj b1) = lst (obj b) \<and>
           List_sortedInsert h v unique s =
             Some (if unique \<and> length (takeWhile (\<lambda>y. y < v) (lst (obj b))) < length (lst (obj b)) \<and>
                      lst (obj b) ! length (takeWhile (\<lambda>y. y < v) (lst (obj b))) = v
                   then s1
                   else s1\<lparr>heap := (heap s1)(p1 \<mapsto> b1\<lparr>obj := (obj b1)\<lparr>lst :=
                          take (length (takeWhile (\<lambda>y. y < v) (lst (obj b)))) (lst (obj b)) @
                          v # drop (length (takeWhile (\<lambda>y. y < v) (lst (obj b)))) (lst (obj b))\<rparr>\<rparr>)\<rparr>)"
proof -
  define xs where "xs = lst (obj b)"
  define k where "k = length (takeWhile (\<lambda>y. y < v) xs)"
  from assms obtain s1 p1 b1 where s1: "List_detach h s = Some s1" "d s1 h = Some p1"
      "heap s1 p1 = Some b1" "lst (obj b1) = lst (obj b)" "use_count b1 \<le> 1"
    by (rule List_detach_result)
  have xs1: "lst (obj b1) = xs" using s1(4) by (simp add: xs_def)
  note sole = List_end_sole[OF s1(2,3,5)]
  have loop: "sortedInsert_loop h v \<lparr>it_store = p1, it_pos = 0\<rparr> s1 =
      Some (\<lparr>it_store = p1, it_pos = k\<rparr>, s1)"
    using sortedInsert_loop_sole[OF s1(2,3,5) xs1, of 0 v] by (simp add: k_def)
  have kle: "k \<le> length xs" by (simp add: k_def length_takeWhile_le)
  have ins: "List_insert h \<lparr>it_store = p1, it_pos = k\<rparr> v s1 =
      Some (\<lparr>it_store = p1, it_pos = k\<rparr>,
            s1\<lparr>heap := (heap s1)(p1 \<mapsto> b1\<lparr>obj := (obj b1)\<lparr>lst := take k xs @ v # drop k xs\<rparr>\<rparr>)\<rparr>)"
    using s1 xs1 kle by (simp add: List_insert_def upd_list_def)
  have de: "k < length xs \<Longrightarrow> deref \<lparr>it_store = p1, it_pos = k\<rparr> s1 = Some (xs ! k)"
    using s1 xs1 by (simp add: deref_def)
  have "List_sortedInsert h v unique s =
          Some (if unique \<and> k < length xs \<and> xs ! k = v then s1
                else s1\<lparr>heap := (heap s1)(p1 \<mapsto> b1\<lparr>obj := (obj b1)\<lparr>lst :=
                          take k xs @ v # drop k xs\<rparr>\<rparr>)\<rparr>)"
  proof (cases "k < length xs")
    case True
    with s1 xs1 sole loop ins de show ?thesis
      by (simp add: List_sortedInsert_def)
  next
    case False
    with kle have "k = length xs" by simp
    with s1 xs1 sole loop ins show ?thesis
      by (simp add: List_sortedInsert_def)
  qed
  with s1 show ?thesis unfolding k_def xs_def by blast
qed

text \<open>
  C4. For every list with elements \<open>xs\<close> (in ascending order or not), \<^verbatim>\<open>sortedInsert(v, unique)\<close>
  succeeds. Let \<open>k\<close> be the position the scan stops at: every element before \<open>k\<close> is less
  than \<open>v\<close>, and the element at \<open>k\<close>, if there is one, is not. If \<open>unique\<close> is set and the
  element at \<open>k\<close> exists and equals \<open>v\<close>, the elements are unchanged; otherwise \<open>v\<close> is
  inserted immediately before position \<open>k\<close>. On \<open>[1, 3, 5]\<close> with \<open>unique\<close>, inserting 3
  leaves \<open>[1, 3, 5]\<close> of size 3 and inserting 4 gives \<open>[1, 3, 4, 5]\<close>.
\<close>

theorem sortedInsert_position:
  assumes "elems s h = Some xs"
  shows "\<exists>s' k. List_sortedInsert h v unique s = Some s' \<and>
           k = length (takeWhile (\<lambda>y. y < v) xs) \<and>
           k \<le> length xs \<and> (\<forall>i<k. xs ! i < v) \<and> (k < length xs \<longrightarrow> \<not> xs ! k < v) \<and>
           elems s' h =
             Some (if unique \<and> k < length xs \<and> xs ! k = v then xs
                   else take k xs @ v # drop k xs)"
proof -
  from elemsD[OF assms] obtain p b where pb: "d s h = Some p" "heap s p = Some b" "lst (obj b) = xs"
    by blast
  from List_sortedInsert_result[OF pb(1,2), of v unique] pb(3)
  have "\<exists>s'. List_sortedInsert h v unique s = Some s' \<and>
          elems s' h = Some (if unique \<and> length (takeWhile (\<lambda>y. y < v) xs) < length xs \<and>
                                xs ! length (takeWhile (\<lambda>y. y < v) xs) = v then xs
                             else take (length (takeWhile (\<lambda>y. y < v) xs)) xs @
                                  v # drop (length (takeWhile (\<lambda>y. y < v) xs)) xs)"
    by (auto simp: elems_def priv_def)
  with takeWhile_first[of "\<lambda>y. y < v" xs] show ?thesis
    by blast
qed

theorem sortedInsert_position_witness:
  "elems ex1 0 = Some [1, 3, 5] \<and>
   (\<exists>s'. List_sortedInsert 0 3 True ex1 = Some s' \<and> elems s' 0 = Some [1, 3, 5] \<and>
      List_size 0 s' = Some 3) \<and>
   (\<exists>s'. List_sortedInsert 0 4 True ex1 = Some s' \<and> elems s' 0 = Some [1, 3, 4, 5])"
proof -
  from sortedInsert_position[OF elems_ex1, of 3 True]
  have "\<exists>s'. List_sortedInsert 0 3 True ex1 = Some s' \<and> elems s' 0 = Some [1, 3, 5]"
    by auto
  then have 3: "\<exists>s'. List_sortedInsert 0 3 True ex1 = Some s' \<and> elems s' 0 = Some [1, 3, 5] \<and>
      List_size 0 s' = Some 3"
    by (auto simp: List_size_def)
  from sortedInsert_position[OF elems_ex1, of 4 True]
  have 4: "\<exists>s'. List_sortedInsert 0 4 True ex1 = Some s' \<and> elems s' 0 = Some [1, 3, 4, 5]"
    by auto
  from 3 4 elems_ex1 show ?thesis by simp
qed

subsection \<open>On ascending lists\<close>

lemma sorted_insert_at_first:
  fixes v :: "'a::linorder"
  assumes "sorted xs"
  shows "sorted (takeWhile (\<lambda>y. y < v) xs @ v # dropWhile (\<lambda>y. y < v) xs)"
  using assms
proof (induction xs)
  case Nil
  then show ?case by simp
next
  case (Cons x xs)
  then show ?case
    by (auto simp: sorted_append dest: set_takeWhileD) 
qed

lemma sorted_first_not_less:
  fixes v :: "'a::linorder"
  assumes "sorted xs" "v \<in> set xs"
  shows "length (takeWhile (\<lambda>y. y < v) xs) < length xs \<and>
         xs ! length (takeWhile (\<lambda>y. y < v) xs) = v"
  using assms
proof (induction xs)
  case Nil
  then show ?case by simp
next
  case (Cons x xs)
  then show ?case by (auto simp: not_less)
qed

text \<open>On an ascending list the result is ascending, and with \<open>unique\<close> a value that is
  already in the list is not inserted, as the header says.\<close>

lemma sortedInsert_sorted:
  fixes v :: "'a::linorder"
  assumes "elems s h = Some xs" "sorted xs"
  shows "\<exists>s' ys. List_sortedInsert h v unique s = Some s' \<and> elems s' h = Some ys \<and> sorted ys \<and>
           set ys = insert v (set xs) \<and> (unique \<and> v \<in> set xs \<longrightarrow> ys = xs)"
proof -
  let ?k = "length (takeWhile (\<lambda>y. y < v) xs)"
  from elemsD[OF assms(1)] obtain p b where pb: "d s h = Some p" "heap s p = Some b" "lst (obj b) = xs"
    by blast
  from List_sortedInsert_result[OF pb(1,2), of v unique] pb(3)
  obtain s' where s': "List_sortedInsert h v unique s = Some s'"
    "elems s' h = Some (if unique \<and> ?k < length xs \<and> xs ! ?k = v then xs
                        else take ?k xs @ v # drop ?k xs)"
    by (auto simp: elems_def priv_def)
  have td: "take ?k xs = takeWhile (\<lambda>y. y < v) xs" "drop ?k xs = dropWhile (\<lambda>y. y < v) xs"
    by (simp_all add: takeWhile_eq_take[symmetric] dropWhile_eq_drop[symmetric])
  have srt: "sorted (take ?k xs @ v # drop ?k xs)"
    unfolding td using assms(2) by (rule sorted_insert_at_first)
  have st: "set (take ?k xs @ v # drop ?k xs) = insert v (set xs)"
    using set_append[of "take ?k xs" "drop ?k xs"] by (simp del: set_append) auto
  have mem: "?k < length xs \<and> xs ! ?k = v \<Longrightarrow> v \<in> set xs"
    using nth_mem[of ?k xs] by auto
  show ?thesis
  proof (cases "unique \<and> ?k < length xs \<and> xs ! ?k = v")
    case True
    with s' assms(2) mem show ?thesis by auto
  next
    case False
    with sorted_first_not_less[OF assms(2), of v] have "\<not> (unique \<and> v \<in> set xs)" by auto
    with False s' srt st show ?thesis by auto
  qed
qed

section \<open>The copy-on-write invariant\<close>

lemma sole_ownerI:
  "d s h = Some p \<Longrightarrow> heap s p = Some b \<Longrightarrow> use_count b = 1 \<Longrightarrow> owners s p = {h} \<Longrightarrow> sole_owner s h"
  by (simp add: sole_owner_def)

lemma sole_ownerD:
  assumes "sole_owner s h"
  obtains p b where "d s h = Some p" "heap s p = Some b" "use_count b = 1" "owners s p = {h}"
  using assms by (auto simp: sole_owner_def split: option.splits)

lemma sole_owner_detach:
  assumes "wf s" "List_detach h s = Some s'"
  shows "sole_owner s' h"
  using assms(2)
proof (cases rule: List_detach_cases)
  case (shared p b)
  have "owners s' (nxt s) = {h}"
    using wf_fresh_owners[OF assms(1)] by (simp add: shared(4) owners_upd_d)
  moreover have "d s' h = Some (nxt s)"
    "heap s' (nxt s) = Some \<lparr>use_count = 1, obj = \<lparr>autoDelete = False, lst = lst (obj b)\<rparr>\<rparr>"
    by (simp_all add: shared(4))
  ultimately show ?thesis
    by (simp add: sole_owner_def)
next
  case (sole p b)
  have hin: "h \<in> owners s p" using sole by (simp add: owners_def)
  have "0 < use_count b" using assms(1) sole(2) by (rule wf_pos)
  with sole(3) have one: "use_count b = 1" by simp
  with wf_count[OF assms(1) sole(2)] have "card (owners s p) = 1" by simp
  then obtain x where "owners s p = {x}" by (rule card_1_singletonE)
  with hin have "owners s p = {h}" by simp
  with sole one show ?thesis by (simp add: sole_owner_def)
qed

lemma sole_owner_obj:
  assumes "sole_owner s h" "heap s q = Some c"
  shows "sole_owner (s\<lparr>heap := (heap s)(q \<mapsto> c\<lparr>obj := v\<rparr>)\<rparr>) h"
  using assms(1)
proof (rule sole_ownerD)
  fix p b assume "d s h = Some p" "heap s p = Some b" "use_count b = 1" "owners s p = {h}"
  with assms(2) show ?thesis
    by (cases "q = p") (simp_all add: sole_owner_def)
qed

lemma sole_owner_deleted: "sole_owner (s\<lparr>deleted := x\<rparr>) h = sole_owner s h"
  by (simp add: sole_owner_def split: option.splits)

lemma sole_owner_upd_list:
  assumes "sole_owner s h" "upd_list l f s = Some s'"
  shows "sole_owner s' h"
  using assms by (auto simp: upd_list_def bind_eq_Some_conv sole_owner_obj)

lemma sole_owner_detach_upd:
  assumes "wf s" "List_detach h s = Some s1" "upd_list h f s1 = Some s'"
  shows "sole_owner s' h"
  using sole_owner_detach[OF assms(1,2)] assms(3) by (rule sole_owner_upd_list)

lemma d_use_count_obj:
  "heap s q = Some c \<Longrightarrow>
   d_use_count h (s\<lparr>heap := (heap s)(q \<mapsto> c\<lparr>obj := v\<rparr>)\<rparr>) = d_use_count h s"
  by (cases "d s h") (auto simp: d_use_count_def)

lemma not_sole_shared:
  assumes "d s a = Some p" "d s b = Some p" "a \<noteq> b"
  shows "\<not> sole_owner s a"
  using assms by (auto simp: sole_owner_def owners_def)

lemma elems_detach_other:
  assumes "wf s" "List_detach h s = Some s'" "elems s l = Some ys"
  shows "elems s' l = Some ys"
  using assms(2)
proof (cases rule: List_detach_cases)
  case (shared p b)
  from elemsD[OF assms(3)] obtain q c where q: "d s l = Some q" "heap s q = Some c" "lst (obj c) = ys"
    by blast
  have "q \<noteq> nxt s" using wf_lt[OF assms(1) q(2)] by simp
  with q shared show ?thesis
    by (cases "l = h"; cases "q = p") (simp_all add: elems_def priv_def)
next
  case (sole p b)
  with assms(3) show ?thesis by simp
qed

lemma detaching_members_succeed:
  fixes s :: "('h, 'a::ord) state"
  assumes "wf s" "elems s h = Some xs" "elems s l = Some ys"
  shows "List_detach h s \<noteq> None \<and> List_begin h s \<noteq> None \<and> List_end h s \<noteq> None \<and>
    List_sortedInsert h x unique s \<noteq> None \<and> List_append h x s \<noteq> None \<and>
    List_append_list h l s \<noteq> None \<and> List_prepend h x s \<noteq> None \<and>
    List_prepend_list h l s \<noteq> None \<and> List_clear ptr h s \<noteq> None \<and>
    List_find h x s \<noteq> None \<and> (xs = [] \<or> List_front h s \<noteq> None) \<and>
    (xs = [] \<or> List_back h s \<noteq> None) \<and> List_setAutoDelete h a s \<noteq> None \<and>
    List_sort h s \<noteq> None \<and> List_sort_comp h cmp s \<noteq> None \<and>
    List_assign_init ptr h ini s \<noteq> None"
proof -
  from elemsD[OF assms(2)] obtain p b where pb: "d s h = Some p" "heap s p = Some b" "lst (obj b) = xs"
    by blast
  from pb(1,2) obtain s1 p1 b1 where s1: "List_detach h s = Some s1" "d s1 h = Some p1"
      "heap s1 p1 = Some b1" "lst (obj b1) = lst (obj b)"
    by (rule List_detach_result)
  have l1: "elems s1 l = Some ys" using assms(1) s1(1) assms(3) by (rule elems_detach_other)
  have "List_sortedInsert h x unique s \<noteq> None"
    using List_sortedInsert_result[OF pb(1,2), of x unique] by auto
  moreover have "List_assign_init ptr h ini s \<noteq> None"
    using List_assign_init_result[OF assms(1) pb(1,2), of ptr ini] by auto
  moreover have "List_clear ptr h s \<noteq> None"
    using s1 by (simp add: List_clear_def split_beta)
  ultimately show ?thesis using s1 l1 pb(3)
    by (simp add: List_begin_def List_end_def List_append_def List_append_list_def
        List_prepend_def List_prepend_list_def List_find_def List_front_def List_back_def
        List_setAutoDelete_def List_sort_def List_sort_comp_def upd_list_def)
qed

text \<open>
  C2, as the code has it. In a well-formed state, after every member that calls
  \<open>detach\<close> completes (\<open>detach\<close> itself, the non-const \<^verbatim>\<open>begin\<close>, \<^verbatim>\<open>end\<close>, \<^verbatim>\<open>find\<close>,
  \<^verbatim>\<open>front\<close> and \<^verbatim>\<open>back\<close>, \<^verbatim>\<open>sortedInsert\<close>, both \<^verbatim>\<open>append\<close> and both \<^verbatim>\<open>prepend\<close>,
  \<^verbatim>\<open>clear\<close>, \<^verbatim>\<open>setAutoDelete\<close>, both \<^verbatim>\<open>sort\<close>, and the assignment of an initializer
  list) the calling list is the sole owner of its store. The members that do not are
  \<^verbatim>\<open>insert\<close> and \<^verbatim>\<open>erase\<close>, which leave the count of the store as it was, \<^verbatim>\<open>swap\<close>, after
  which the calling list has the store and the count of the other list, and the copy
  assignment from another list, after which the store is shared. (Nothing is said here about
  the non-const \<^verbatim>\<open>operator[]\<close>; see \<open>index_does_not_detach\<close> below.)
\<close>

theorem detaching_members_sole_owner:
  fixes s :: "('h, 'a::ord) state"
  assumes "wf s"
  shows "(\<forall>s'. List_detach h s = Some s' \<longrightarrow> sole_owner s' h) \<and>
    (\<forall>it s'. List_begin h s = Some (it, s') \<longrightarrow> sole_owner s' h) \<and>
    (\<forall>it s'. List_end h s = Some (it, s') \<longrightarrow> sole_owner s' h) \<and>
    (\<forall>s'. List_sortedInsert h x unique s = Some s' \<longrightarrow> sole_owner s' h) \<and>
    (\<forall>s'. List_append h x s = Some s' \<longrightarrow> sole_owner s' h) \<and>
    (\<forall>s'. List_append_list h l s = Some s' \<longrightarrow> sole_owner s' h) \<and>
    (\<forall>s'. List_prepend h x s = Some s' \<longrightarrow> sole_owner s' h) \<and>
    (\<forall>s'. List_prepend_list h l s = Some s' \<longrightarrow> sole_owner s' h) \<and>
    (\<forall>s'. List_clear ptr h s = Some s' \<longrightarrow> sole_owner s' h) \<and>
    (\<forall>it s'. List_find h x s = Some (it, s') \<longrightarrow> sole_owner s' h) \<and>
    (\<forall>r s'. List_front h s = Some (r, s') \<longrightarrow> sole_owner s' h) \<and>
    (\<forall>r s'. List_back h s = Some (r, s') \<longrightarrow> sole_owner s' h) \<and>
    (\<forall>s'. List_setAutoDelete h a s = Some s' \<longrightarrow> sole_owner s' h) \<and>
    (\<forall>s'. List_sort h s = Some s' \<longrightarrow> sole_owner s' h) \<and>
    (\<forall>s'. List_sort_comp h cmp s = Some s' \<longrightarrow> sole_owner s' h) \<and>
    (\<forall>s'. List_assign_init ptr h ini s = Some s' \<longrightarrow> sole_owner s' h) \<and>
    (\<forall>it' s'. List_insert h it x s = Some (it', s') \<longrightarrow> d_use_count h s' = d_use_count h s) \<and>
    (\<forall>it' s'. List_erase h it s = Some (it', s') \<longrightarrow> d_use_count h s' = d_use_count h s) \<and>
    (\<forall>s'. List_swap h l s = Some s' \<longrightarrow> d_use_count h s' = d_use_count l s) \<and>
    (\<forall>s'. List_assign ptr h l s = Some s' \<and> h \<noteq> l \<longrightarrow> \<not> sole_owner s' h)"
proof -
  note det = sole_owner_detach[OF assms]
  note du = sole_owner_detach_upd[OF assms]
  have 1: "\<forall>s'. List_detach h s = Some s' \<longrightarrow> sole_owner s' h"
    using det by blast
  have 2: "\<forall>it s'. List_begin h s = Some (it, s') \<longrightarrow> sole_owner s' h"
    using det by (auto simp: List_begin_def bind_eq_Some_conv)
  have 3: "\<forall>it s'. List_end h s = Some (it, s') \<longrightarrow> sole_owner s' h"
    using det by (auto simp: List_end_def bind_eq_Some_conv)
  have 4: "\<forall>s'. List_sortedInsert h x unique s = Some s' \<longrightarrow> sole_owner s' h"
  proof (intro allI impI)
    fix s' assume a: "List_sortedInsert h x unique s = Some s'"
    then obtain p b where pb: "d s h = Some p" "heap s p = Some b"
      by (auto simp: List_sortedInsert_def List_detach_def bind_eq_Some_conv)
    from List_sortedInsert_result[OF pb, of x unique] a obtain s1 p1 b1 v where
      "List_detach h s = Some s1" "heap s1 p1 = Some b1"
      "s' = s1 \<or> s' = s1\<lparr>heap := (heap s1)(p1 \<mapsto> b1\<lparr>obj := v\<rparr>)\<rparr>"
      by (auto split: if_splits)
    with det[where s' = s1] show "sole_owner s' h" by (auto simp: sole_owner_obj)
  qed
  have 5: "\<forall>s'. List_append h x s = Some s' \<longrightarrow> sole_owner s' h"
    using du by (auto simp: List_append_def bind_eq_Some_conv)
  have 6: "\<forall>s'. List_append_list h l s = Some s' \<longrightarrow> sole_owner s' h"
    using du by (auto simp: List_append_list_def bind_eq_Some_conv)
  have 7: "\<forall>s'. List_prepend h x s = Some s' \<longrightarrow> sole_owner s' h"
    using du by (auto simp: List_prepend_def bind_eq_Some_conv)
  have 8: "\<forall>s'. List_prepend_list h l s = Some s' \<longrightarrow> sole_owner s' h"
    using du by (auto simp: List_prepend_list_def bind_eq_Some_conv)
  have 9: "\<forall>s'. List_clear ptr h s = Some s' \<longrightarrow> sole_owner s' h"
    using det
    by (auto simp: List_clear_def bind_eq_Some_conv ListPrivate_clear_def sole_owner_deleted
        sole_owner_obj)
  have 10: "\<forall>it s'. List_find h x s = Some (it, s') \<longrightarrow> sole_owner s' h"
    using det by (auto simp: List_find_def bind_eq_Some_conv)
  have 11: "\<forall>r s'. List_front h s = Some (r, s') \<longrightarrow> sole_owner s' h"
    using det by (auto simp: List_front_def bind_eq_Some_conv split: if_splits)
  have 12: "\<forall>r s'. List_back h s = Some (r, s') \<longrightarrow> sole_owner s' h"
    using det by (auto simp: List_back_def bind_eq_Some_conv split: if_splits)
  have 13: "\<forall>s'. List_setAutoDelete h a s = Some s' \<longrightarrow> sole_owner s' h"
    using det by (auto simp: List_setAutoDelete_def bind_eq_Some_conv sole_owner_obj)
  have 14: "\<forall>s'. List_sort h s = Some s' \<longrightarrow> sole_owner s' h"
    using du by (auto simp: List_sort_def bind_eq_Some_conv)
  have 15: "\<forall>s'. List_sort_comp h cmp s = Some s' \<longrightarrow> sole_owner s' h"
    using du by (auto simp: List_sort_comp_def bind_eq_Some_conv)
  have 16: "\<forall>s'. List_assign_init ptr h ini s = Some s' \<longrightarrow> sole_owner s' h"
  proof (intro allI impI)
    fix s' assume a: "List_assign_init ptr h ini s = Some s'"
    then obtain p b where pb: "d s h = Some p" "heap s p = Some b"
      by (auto simp: List_assign_init_def bind_eq_Some_conv)
    from List_assign_init_result[OF assms pb, of ptr ini] a
    have s': "d s' = (d s)(h \<mapsto> nxt s)" "d s' h = Some (nxt s)"
      "heap s' (nxt s) =
        Some \<lparr>use_count = 1, obj = \<lparr>autoDelete = autoDelete (obj b), lst = ini\<rparr>\<rparr>"
      by auto
    have "owners s' (nxt s) = {h}"
      using wf_fresh_owners[OF assms] s'(1) by (auto simp: owners_def split: if_splits)
    with s' show "sole_owner s' h" by (simp add: sole_owner_def)
  qed
  have 17: "\<forall>it' s'. List_insert h it x s = Some (it', s') \<longrightarrow> d_use_count h s' = d_use_count h s"
    by (auto simp: List_insert_def upd_list_def bind_eq_Some_conv d_use_count_obj split: if_splits)
  have 18: "\<forall>it' s'. List_erase h it s = Some (it', s') \<longrightarrow> d_use_count h s' = d_use_count h s"
    by (auto simp: List_erase_def upd_list_def bind_eq_Some_conv d_use_count_obj split: if_splits)
  have 19: "\<forall>s'. List_swap h l s = Some s' \<longrightarrow> d_use_count h s' = d_use_count l s"
    by (auto simp: List_swap_def bind_eq_Some_conv d_use_count_def)
  have 20: "\<forall>s'. List_assign ptr h l s = Some s' \<and> h \<noteq> l \<longrightarrow> \<not> sole_owner s' h"
  proof (intro allI impI)
    fix s' assume a: "List_assign ptr h l s = Some s' \<and> h \<noteq> l"
    then obtain q p where "d s h = Some q" "d s l = Some p"
      by (auto simp: List_assign_def bind_eq_Some_conv)
    from List_assign_result[OF assms this, of ptr] a
    have "d s' l = Some p" "d s' h = Some p" by auto
    with a show "\<not> sole_owner s' h" using not_sole_shared[of s' h p l] by auto
  qed
  from 1 2 3 4 5 6 7 8 9 10 show ?thesis
    using 11 12 13 14 15 16 17 18 19 20 by blast
qed

theorem detaching_members_sole_owner_witness:
  "wf ex3 \<and> d_use_count 1 ex3 = Some 2 \<and>
   (\<exists>s'. List_detach 1 ex3 = Some s' \<and> sole_owner s' 1) \<and>
   (\<exists>it s'. List_begin 1 ex3 = Some (it, s') \<and> sole_owner s' 1) \<and>
   (\<exists>it s'. List_end 1 ex3 = Some (it, s') \<and> sole_owner s' 1) \<and>
   (\<exists>s'. List_sortedInsert 1 4 True ex3 = Some s' \<and> sole_owner s' 1) \<and>
   (\<exists>s'. List_append 1 4 ex3 = Some s' \<and> sole_owner s' 1) \<and>
   (\<exists>s'. List_append_list 1 0 ex3 = Some s' \<and> sole_owner s' 1) \<and>
   (\<exists>s'. List_prepend 1 4 ex3 = Some s' \<and> sole_owner s' 1) \<and>
   (\<exists>s'. List_prepend_list 1 0 ex3 = Some s' \<and> sole_owner s' 1) \<and>
   (\<exists>s'. List_clear False 1 ex3 = Some s' \<and> sole_owner s' 1) \<and>
   (\<exists>it s'. List_find 1 4 ex3 = Some (it, s') \<and> sole_owner s' 1) \<and>
   (\<exists>r s'. List_front 1 ex3 = Some (r, s') \<and> sole_owner s' 1) \<and>
   (\<exists>r s'. List_back 1 ex3 = Some (r, s') \<and> sole_owner s' 1) \<and>
   (\<exists>s'. List_setAutoDelete 1 False ex3 = Some s' \<and> sole_owner s' 1) \<and>
   (\<exists>s'. List_sort 1 ex3 = Some s' \<and> sole_owner s' 1) \<and>
   (\<exists>s'. List_sort_comp 1 (\<lambda>x y. y < x) ex3 = Some s' \<and> sole_owner s' 1) \<and>
   (\<exists>s'. List_assign_init False 1 [7, 8] ex3 = Some s' \<and> sole_owner s' 1) \<and>
   (\<exists>it' s'. List_insert 1 \<lparr>it_store = 0, it_pos = 0\<rparr> 4 ex3 = Some (it', s') \<and>
      d_use_count 1 s' = Some 2) \<and>
   (\<exists>it' s'. List_erase 1 \<lparr>it_store = 0, it_pos = 0\<rparr> ex3 = Some (it', s') \<and>
      d_use_count 1 s' = Some 2) \<and>
   (\<exists>s'. List_swap 2 0 ex4 = Some s' \<and> d_use_count 2 s' = Some 2) \<and>
   (\<exists>s'. List_assign False 2 0 ex4 = Some s' \<and> \<not> sole_owner s' 2)"
proof -
  note t = detaching_members_sole_owner[OF wf_ex3, where h = 1 and x = 4 and unique = True
      and l = 0 and ptr = False and a = False and cmp = "\<lambda>x y. y < x" and ini = "[7, 8]"
      and it = "\<lparr>it_store = 0, it_pos = 0\<rparr>"]
  note u = detaching_members_succeed[OF wf_ex3 elems_ex3(2,1), where x = 4 and unique = True
      and ptr = False and a = False and cmp = "\<lambda>x y. y < x" and ini = "[7, 8]"]
  have c: "d_use_count 1 ex3 = Some 2" by (simp add: d_use_count_def ex3_def)
  have i: "\<exists>it' s'. List_insert 1 \<lparr>it_store = 0, it_pos = 0\<rparr> 4 ex3 = Some (it', s')"
    by (simp add: List_insert_def upd_list_def ex3_def)
  have e: "\<exists>it' s'. List_erase 1 \<lparr>it_store = 0, it_pos = 0\<rparr> ex3 = Some (it', s')"
    by (simp add: List_erase_def upd_list_def ex3_def)
  note t4 = detaching_members_sole_owner[OF wf_ex4, where h = 2 and l = 0 and ptr = False]
  have sw: "\<exists>s'. List_swap 2 0 ex4 = Some s'" by (simp add: List_swap_def ex4_def)
  have c4: "d_use_count 0 ex4 = Some 2" by (simp add: d_use_count_def ex4_def)
  have "\<exists>s'. List_assign False 2 0 ex4 = Some s'"
    using List_assign_result[OF wf_ex4, of 2 1 0 0 False] by (auto simp: ex4_def)
  with t4 have as: "\<exists>s'. List_assign False 2 0 ex4 = Some s' \<and> \<not> sole_owner s' 2" by auto
  from t4 sw c4 have sw': "\<exists>s'. List_swap 2 0 ex4 = Some s' \<and> d_use_count 2 s' = Some 2"
    by auto
  from t i c have i': "\<exists>it' s'. List_insert 1 \<lparr>it_store = 0, it_pos = 0\<rparr> 4 ex3 = Some (it', s') \<and>
      d_use_count 1 s' = Some 2" by auto
  from t e c have e': "\<exists>it' s'. List_erase 1 \<lparr>it_store = 0, it_pos = 0\<rparr> ex3 = Some (it', s') \<and>
      d_use_count 1 s' = Some 2" by auto
  from t u have "(\<exists>s'. List_detach 1 ex3 = Some s' \<and> sole_owner s' 1) \<and>
   (\<exists>it s'. List_begin 1 ex3 = Some (it, s') \<and> sole_owner s' 1) \<and>
   (\<exists>it s'. List_end 1 ex3 = Some (it, s') \<and> sole_owner s' 1) \<and>
   (\<exists>s'. List_sortedInsert 1 4 True ex3 = Some s' \<and> sole_owner s' 1) \<and>
   (\<exists>s'. List_append 1 4 ex3 = Some s' \<and> sole_owner s' 1) \<and>
   (\<exists>s'. List_append_list 1 0 ex3 = Some s' \<and> sole_owner s' 1) \<and>
   (\<exists>s'. List_prepend 1 4 ex3 = Some s' \<and> sole_owner s' 1) \<and>
   (\<exists>s'. List_prepend_list 1 0 ex3 = Some s' \<and> sole_owner s' 1) \<and>
   (\<exists>s'. List_clear False 1 ex3 = Some s' \<and> sole_owner s' 1) \<and>
   (\<exists>it s'. List_find 1 4 ex3 = Some (it, s') \<and> sole_owner s' 1) \<and>
   (\<exists>r s'. List_front 1 ex3 = Some (r, s') \<and> sole_owner s' 1) \<and>
   (\<exists>r s'. List_back 1 ex3 = Some (r, s') \<and> sole_owner s' 1) \<and>
   (\<exists>s'. List_setAutoDelete 1 False ex3 = Some s' \<and> sole_owner s' 1) \<and>
   (\<exists>s'. List_sort 1 ex3 = Some s' \<and> sole_owner s' 1) \<and>
   (\<exists>s'. List_sort_comp 1 (\<lambda>x y. y < x) ex3 = Some s' \<and> sole_owner s' 1) \<and>
   (\<exists>s'. List_assign_init False 1 [7, 8] ex3 = Some s' \<and> sole_owner s' 1)"
    by (intro conjI) auto
  with wf_ex3 c i' e' sw' as show ?thesis by blast
qed

text \<open>
  C2 as stated fails at \<^verbatim>\<open>swap\<close> and at the copy assignment, which are non-const public
  members and no iterator-taking ones: in \<open>ex4\<close> the list \<open>2\<close> is the sole owner of its
  store; after \<^verbatim>\<open>l2.swap(l0)\<close> it is on a store with two owners, and after \<^verbatim>\<open>l2 = l0\<close>
  on one with three.
\<close>

theorem swap_and_assign_share_counterexample:
  "d_use_count 2 ex4 = Some 1 \<and>
   (List_swap 2 0 ex4 \<bind> d_use_count 2) = Some 2 \<and>
   (List_assign False 2 0 ex4 \<bind> d_use_count 2) = Some 3"
  by (simp add: List_swap_def List_assign_def acquire_def release_def ListPrivate_clear_def
      d_use_count_def ex4_def)

text \<open>
  The non-const \<^verbatim>\<open>operator[]\<close> has no call of \<open>detach\<close>, unlike \<^verbatim>\<open>front()\<close> and
  \<^verbatim>\<open>back()\<close>, and although the comment of \<open>detach\<close> in the header asks every non-const member
  without iterator parameters to call it. In \<open>ex3\<close>, where the lists \<open>0\<close> and \<open>1\<close> share a
  store, \<^verbatim>\<open>l1[0]\<close> leaves the store shared, and \<^verbatim>\<open>l1[0] = 9\<close> changes the elements of
  \<open>0\<close>, while \<^verbatim>\<open>l1.front() = 9\<close> does not.
\<close>

lemma index_does_not_detach:
  "d_use_count 1 ex3 = Some 2 \<and>
   (map_option snd (List_index 1 0 ex3) \<bind> d_use_count 1) = Some 2 \<and>
   (List_index 1 0 ex3 \<bind> (\<lambda>(r, s). assign_ref r 9 s) \<bind> (\<lambda>s. elems s 0)) = Some [9, 3, 5] \<and>
   (List_front 1 ex3 \<bind> (\<lambda>(r, s). assign_ref r 9 s) \<bind> (\<lambda>s. elems s 0)) = Some [1, 3, 5]"
  by (simp add: List_index_def List_front_def List_detach_def make_shared_def assign_ref_def
      d_use_count_def elems_def priv_def ex3_def)

section \<open>The remaining members preserve well-formedness\<close>

text \<open>With \<open>wf_init\<close> and the lemmas for the constructors, the destructor, the copy
  assignment, \<open>detach\<close>, \<open>swap\<close>, \<open>append\<close> and \<open>setAutoDelete\<close> above: every state a
  program reaches from \<open>init\<close> through the members of the class is well-formed.\<close>

lemma wf_List_assign_init:
  assumes "wf s" "List_assign_init ptr h ini s = Some s'"
  shows "wf s'"
proof -
  from assms(2) obtain p b where pb: "d s h = Some p" "heap s p = Some b"
    by (auto simp: List_assign_init_def bind_eq_Some_conv)
  have pn: "p \<noteq> nxt s" using wf_lt[OF assms(1) pb(2)] by simp
  let ?new = "\<lparr>use_count = 1, obj = \<lparr>autoDelete = False, lst = ini\<rparr>\<rparr>"
  let ?s2 = "s\<lparr>heap := (heap s)(nxt s \<mapsto> ?new), nxt := Suc (nxt s), d := (d s)(h \<mapsto> nxt s)\<rparr>"
  from assms(2) pb obtain s3 where s3: "release ptr p ?s2 = Some s3"
    and s': "List_setAutoDelete h (autoDelete (obj b)) s3 = Some s'"
    by (auto simp: List_assign_init_def make_shared_def bind_eq_Some_conv)
  from pb(2) have "\<exists>s0. release ptr p s = Some s0" by (simp add: release_def)
  then obtain s0 where s0: "release ptr p s = Some s0" ..
  let ?s0 = "s0\<lparr>d := (d s0)(h := None)\<rparr>"
  have w0: "wf ?s0" using assms(1) pb(1) s0 by (rule wf_release)
  have "wf (?s0\<lparr>heap := (heap ?s0)(nxt ?s0 \<mapsto> ?new), nxt := Suc (nxt ?s0),
                 d := (d ?s0)(h \<mapsto> nxt ?s0)\<rparr>)"
    using w0 by (rule wf_new) simp
  moreover have "s3 = ?s0\<lparr>heap := (heap ?s0)(nxt ?s0 \<mapsto> ?new), nxt := Suc (nxt ?s0),
                 d := (d ?s0)(h \<mapsto> nxt ?s0)\<rparr>"
    using s0 s3 pb(2) pn by (auto simp: release_def fun_upd_twist split: if_splits)
  ultimately have "wf s3" by simp
  then show ?thesis using s' by (rule wf_List_setAutoDelete)
qed

lemma wf_members:
  fixes s :: "('h, 'a::ord) state"
  assumes "wf s"
  shows "List_begin h s = Some (it', s') \<Longrightarrow> wf s'"
    and "List_end h s = Some (it', s') \<Longrightarrow> wf s'"
    and "List_find h x s = Some (it', s') \<Longrightarrow> wf s'"
    and "List_front h s = Some (it', s') \<Longrightarrow> wf s'"
    and "List_back h s = Some (it', s') \<Longrightarrow> wf s'"
    and "List_insert h it x s = Some (it', s') \<Longrightarrow> wf s'"
    and "List_erase h it s = Some (it', s') \<Longrightarrow> wf s'"
    and "List_index h i s = Some (it', s') \<Longrightarrow> wf s'"
    and "List_sortedInsert h x unique s = Some s' \<Longrightarrow> wf s'"
    and "List_append_list h l s = Some s' \<Longrightarrow> wf s'"
    and "List_prepend h x s = Some s' \<Longrightarrow> wf s'"
    and "List_prepend_list h l s = Some s' \<Longrightarrow> wf s'"
    and "List_clear ptr h s = Some s' \<Longrightarrow> wf s'"
    and "List_sort h s = Some s' \<Longrightarrow> wf s'"
    and "List_sort_comp h cmp s = Some s' \<Longrightarrow> wf s'"
proof -
  note det = wf_List_detach[OF assms]
  show "List_begin h s = Some (it', s') \<Longrightarrow> wf s'"
    using det by (auto simp: List_begin_def bind_eq_Some_conv)
  show "List_end h s = Some (it', s') \<Longrightarrow> wf s'"
    using det by (auto simp: List_end_def bind_eq_Some_conv)
  show "List_find h x s = Some (it', s') \<Longrightarrow> wf s'"
    using det by (auto simp: List_find_def bind_eq_Some_conv)
  show "List_front h s = Some (it', s') \<Longrightarrow> wf s'"
    using det by (auto simp: List_front_def bind_eq_Some_conv split: if_splits)
  show "List_back h s = Some (it', s') \<Longrightarrow> wf s'"
    using det by (auto simp: List_back_def bind_eq_Some_conv split: if_splits)
  show "List_insert h it x s = Some (it', s') \<Longrightarrow> wf s'"
    using assms by (auto simp: List_insert_def bind_eq_Some_conv split: if_splits dest: wf_upd_list)
  show "List_erase h it s = Some (it', s') \<Longrightarrow> wf s'"
    using assms by (auto simp: List_erase_def bind_eq_Some_conv split: if_splits dest: wf_upd_list)
  show "List_index h i s = Some (it', s') \<Longrightarrow> wf s'"
    using assms by (auto simp: List_index_def bind_eq_Some_conv split: if_splits)
  show "List_sortedInsert h x unique s = Some s' \<Longrightarrow> wf s'"
  proof -
    assume a: "List_sortedInsert h x unique s = Some s'"
    then obtain p b where pb: "d s h = Some p" "heap s p = Some b"
      by (auto simp: List_sortedInsert_def List_detach_def bind_eq_Some_conv)
    from List_sortedInsert_result[OF pb, of x unique] a obtain s1 p1 b1 v where
      "List_detach h s = Some s1" "heap s1 p1 = Some b1"
      "s' = s1 \<or> s' = s1\<lparr>heap := (heap s1)(p1 \<mapsto> b1\<lparr>obj := v\<rparr>)\<rparr>"
      by (auto split: if_splits)
    with det[of h s1] show "wf s'" by (auto simp: wf_obj)
  qed
  show "List_append_list h l s = Some s' \<Longrightarrow> wf s'"
    using det by (auto simp: List_append_list_def bind_eq_Some_conv dest: wf_upd_list)
  show "List_prepend h x s = Some s' \<Longrightarrow> wf s'"
    using det by (auto simp: List_prepend_def bind_eq_Some_conv dest: wf_upd_list)
  show "List_prepend_list h l s = Some s' \<Longrightarrow> wf s'"
    using det by (auto simp: List_prepend_list_def bind_eq_Some_conv dest: wf_upd_list)
  show "List_clear ptr h s = Some s' \<Longrightarrow> wf s'"
    using det
    by (auto simp: List_clear_def ListPrivate_clear_def bind_eq_Some_conv
        intro!: wf_deleted wf_obj)
  show "List_sort h s = Some s' \<Longrightarrow> wf s'"
    using det by (auto simp: List_sort_def bind_eq_Some_conv dest: wf_upd_list)
  show "List_sort_comp h cmp s = Some s' \<Longrightarrow> wf s'"
    using det by (auto simp: List_sort_comp_def bind_eq_Some_conv dest: wf_upd_list)
qed

end
